theory Spec2Isabelle
  imports Main
begin

section \<open>State of the game (Application.cpp, lines 39--55)\<close>

text \<open>
  The board is \<^verbatim>\<open>std::array<int, 9>\<close> with cell values 0 (empty), 1 (X) and 2 (O).
  It is modelled as a function from the cell index to the cell value; the program only
  ever reads and writes the indices 0..8.  The globals \<^verbatim>\<open>currentPlayer\<close>,
  \<^verbatim>\<open>gameOver\<close>, \<^verbatim>\<open>winner\<close> and \<^verbatim>\<open>aiEnabled\<close> are the other fields of
  the state (the random generator is seeded and never used).
\<close>

type_synonym cells = "nat \<Rightarrow> int"

record state =
  board :: cells
  currentPlayer :: int
  gameOver :: bool
  winner :: int
  aiEnabled :: bool

definition WINS :: "(nat \<times> nat \<times> nat) list" where
  "WINS = [(0, 1, 2), (3, 4, 5), (6, 7, 8),
           (0, 3, 6), (1, 4, 7), (2, 5, 8),
           (0, 4, 8), (2, 4, 6)]"

definition ORDER :: "nat list" where
  "ORDER = [4, 0, 2, 6, 8, 1, 3, 5, 7]"

text \<open>\<^verbatim>\<open>std::numeric_limits<int>::min()\<close> for the 32-bit \<^verbatim>\<open>int\<close>.\<close>

definition INT_MIN :: int where
  "INT_MIN = - 2147483648"

text \<open>
  Unary minus on a 32-bit \<^verbatim>\<open>int\<close>: the only value whose negation does not fit is
  \<^verbatim>\<open>INT_MIN\<close>, which two's complement maps to itself.
\<close>

definition neg32 :: "int \<Rightarrow> int" where
  "neg32 x = (if x = INT_MIN then INT_MIN else - x)"

text \<open>A board given cell by cell, as the specification writes it.\<close>

definition board_of :: "int list \<Rightarrow> cells" where
  "board_of xs = (\<lambda>i. if i < length xs then xs ! i else 0)"

section \<open>Helpers (lines 58--84)\<close>

definition ResetGame :: "state \<Rightarrow> state" where
  "ResetGame s = s\<lparr>board := (\<lambda>_. 0), currentPlayer := 1, gameOver := False, winner := 0\<rparr>"

fun CheckWinnerRaw_lines :: "(nat \<times> nat \<times> nat) list \<Rightarrow> cells \<Rightarrow> int" where
  "CheckWinnerRaw_lines [] bd = 0"
| "CheckWinnerRaw_lines ((l0, l1, l2) # rest) bd =
     (let a = bd l0; b = bd l1; c = bd l2
      in if a \<noteq> 0 \<and> a = b \<and> b = c then a else CheckWinnerRaw_lines rest bd)"

definition CheckWinnerRaw :: "cells \<Rightarrow> int" where
  "CheckWinnerRaw bd = CheckWinnerRaw_lines WINS bd"

definition CheckWinnerSigned :: "cells \<Rightarrow> int" where
  "CheckWinnerSigned bd =
     (let w = CheckWinnerRaw bd
      in if w = 1 then 1 else if w = 2 then - 1 else 0)"

fun BoardFull_cells :: "nat list \<Rightarrow> cells \<Rightarrow> bool" where
  "BoardFull_cells [] bd = True"
| "BoardFull_cells (i # rest) bd = (if bd i = 0 then False else BoardFull_cells rest bd)"

definition BoardFull :: "cells \<Rightarrow> bool" where
  "BoardFull bd = BoardFull_cells [0..<9] bd"

text \<open>The number of empty cells: what the search consumes.\<close>

definition empties :: "cells \<Rightarrow> nat" where
  "empties bd = length (filter (\<lambda>i. bd i = 0) [0..<9])"

section \<open>Negamax (lines 89--118)\<close>

text \<open>
  The search works on the global board by place and undo, so the model threads the
  state through every call and returns it with the value.  \<open>Negamax_loop\<close> is the
  \<^verbatim>\<open>for (int idx : ORDER)\<close> loop with its \<^verbatim>\<open>continue\<close> and \<^verbatim>\<open>break\<close>.
\<close>

definition place :: "nat \<Rightarrow> int \<Rightarrow> state \<Rightarrow> state" where
  "place idx v s = s\<lparr>board := (board s)(idx := v)\<rparr>"

function Negamax :: "int \<Rightarrow> state \<Rightarrow> int \<times> state"
  and Negamax_loop :: "int \<Rightarrow> nat list \<Rightarrow> int \<Rightarrow> state \<Rightarrow> int \<times> state"
where
  "Negamax side s =
     (let signedWinner = CheckWinnerSigned (board s)
      in if signedWinner \<noteq> 0 then ((if signedWinner = side then 1 else - 1), s)
         else if BoardFull (board s) then (0, s)
         else Negamax_loop side ORDER INT_MIN s)"
| "Negamax_loop side [] best s = (best, s)"
| "Negamax_loop side (idx # rest) best s =
     (if board s idx \<noteq> 0 then Negamax_loop side rest best s
      else
        (case Negamax (neg32 side) (place idx (if side = 1 then 1 else 2) s) of
           (r, s1) \<Rightarrow>
             let val = neg32 r;
                 s2 = place idx 0 s1;
                 best' = (if val > best then val else best)
             in if best' = 1 then (best', s2) else Negamax_loop side rest best' s2))"
  by pat_completeness auto

text \<open>
  Termination: every recursive call of \<open>Negamax\<close> works on a board with one empty
  cell fewer, and the loop gets back the board it started with, because each cell it
  fills is cleared again.  The second fact is needed for the first, so it is proved on
  the domain of the function first.
\<close>

termination
proof -
  have card: "empties bd = card {i. i < 9 \<and> bd i = 0}" for bd
  proof -
    have "{i. i < 9 \<and> bd i = 0} = set (filter (\<lambda>i. bd i = 0) [0..<9])" by auto
    then show ?thesis
      unfolding empties_def by (simp only: distinct_card[OF distinct_filter[OF distinct_upt]])
  qed
  have less: "empties (bd(idx := v)) < empties bd" if "idx < 9" "bd idx = 0" "v \<noteq> 0" for bd idx v
  proof -
    have "{i. i < 9 \<and> (bd(idx := v)) i = 0} \<subset> {i. i < 9 \<and> bd i = 0}"
      using that by auto
    then show ?thesis
      unfolding card by (intro psubset_card_mono) auto
  qed
  have outside: "empties (bd(idx := v)) = empties bd" if "9 \<le> idx" for bd idx v
    unfolding empties_def using that by (intro arg_cong[where f = length] filter_cong) auto
  have frame:
    "Negamax_Negamax_loop_dom (Inl (side, s)) \<Longrightarrow> snd (Negamax side s) = s"
    "Negamax_Negamax_loop_dom (Inr (side, xs, best, s)) \<Longrightarrow> snd (Negamax_loop side xs best s) = s"
    for side s xs best
  proof (induct side s and side xs best s rule: Negamax_Negamax_loop.pinduct)
    case (1 side s)
    then show ?case by (simp add: Negamax.psimps Let_def)
  next
    case (2 side best s)
    then show ?case by (simp add: Negamax_loop.psimps)
  next
    case (3 side idx rest best s)
    show ?case
    proof (cases "board s idx \<noteq> 0")
      case True
      with 3 show ?thesis by (simp add: Negamax_loop.psimps)
    next
      case False
      obtain r s1 where call: "Negamax (neg32 side) (place idx (if side = 1 then 1 else 2) s) = (r, s1)"
        by (cases "Negamax (neg32 side) (place idx (if side = 1 then 1 else 2) s)")
      from 3(3)[OF False] call have s1: "s1 = place idx (if side = 1 then 1 else 2) s" by simp
      have undo: "place idx 0 s1 = s" using False unfolding s1 by (simp add: place_def fun_upd_idem)
      show ?thesis
      proof (cases "(if best < neg32 r then neg32 r else best) = 1")
        case True
        with 3(1) False call undo show ?thesis by (simp add: Negamax_loop.psimps Let_def)
      next
        case stay: False
        from 3(4)[OF False call[symmetric] refl refl refl stay] undo
        have "snd (Negamax_loop side rest (if best < neg32 r then neg32 r else best) s) = s" by simp
        with 3(1) False call undo stay show ?thesis by (simp add: Negamax_loop.psimps Let_def)
      qed
    qed
  qed
  let ?R = "measures
     [\<lambda>x. case x of Inl (side, s) \<Rightarrow> empties (board s)
              | Inr (side, xs, best, s) \<Rightarrow> empties (board s) + length (filter (\<lambda>i. 9 \<le> i) xs),
      \<lambda>x. case x of Inl (side, s) \<Rightarrow> 10 | Inr (side, xs, best, s) \<Rightarrow> length xs]"
  show ?thesis
  proof (relation ?R, goal_cases)
    case 1 show ?case by simp
  next
    case (2 side s x)
    show ?case by (simp add: ORDER_def)
  next
    case (3 side idx rest best s)
    then show ?case by simp
  next
    case (4 side idx rest best s)
    then have e: "board s idx = 0" by simp
    show ?case
    proof (cases "idx < 9")
      case True
      from less[of idx "board s" 1] less[of idx "board s" 2] True e show ?thesis
        by (simp add: place_def)
    next
      case False
      then show ?thesis by (simp add: place_def outside)
    qed
  next
    case (5 side idx rest best s x y xa xb xc)
    then have e: "board s idx = 0"
      and call: "(x, y) = Negamax (neg32 side) (place idx (if side = 1 then 1 else 2) s)"
      and xb: "xb = place idx 0 y"
      and dom: "Negamax_Negamax_loop_dom (Inl (neg32 side, place idx (if side = 1 then 1 else 2) s))"
      by simp_all
    from frame(1)[OF dom] call have y: "y = place idx (if side = 1 then 1 else 2) s"
      by (metis snd_conv)
    have "xb = s" using e unfolding xb y by (simp add: place_def fun_upd_idem)
    then show ?case by simp
  qed
qed

declare Negamax.simps [simp del] Negamax_loop.simps [simp del]

section \<open>The computer's move (lines 122--154)\<close>

text \<open>
  The two statements \<^verbatim>\<open>winner = CheckWinnerRaw(); gameOver = (winner != 0) || BoardFull();\<close>
  that follow every committed move, the computer's (lines 151--152) and the human's
  (lines 195--196).
\<close>

definition record_outcome :: "state \<Rightarrow> state" where
  "record_outcome s =
     (let s1 = s\<lparr>winner := CheckWinnerRaw (board s)\<rparr>
      in s1\<lparr>gameOver := (winner s1 \<noteq> 0 \<or> BoardFull (board s1))\<rparr>)"

text \<open>
  The scoring loop of lines 128--140, returning \<^verbatim>\<open>bestVal\<close>, \<^verbatim>\<open>bestMove\<close> and the state.
\<close>

fun AIMove_scan :: "nat list \<Rightarrow> int \<Rightarrow> int \<Rightarrow> state \<Rightarrow> int \<times> int \<times> state" where
  "AIMove_scan [] bestVal bestMove s = (bestVal, bestMove, s)"
| "AIMove_scan (idx # rest) bestVal bestMove s =
     (if board s idx \<noteq> 0 then AIMove_scan rest bestVal bestMove s
      else
        (case Negamax 1 (place idx 2 s) of
           (r, s1) \<Rightarrow>
             let val = neg32 r;
                 s2 = place idx 0 s1
             in if val > bestVal
                then (if val = 1 then (val, int idx, s2)
                      else AIMove_scan rest val (int idx) s2)
                else AIMove_scan rest bestVal bestMove s2))"

text \<open>The fallback loop of line 144: the first empty cell in index order.\<close>

fun first_empty :: "nat list \<Rightarrow> cells \<Rightarrow> int \<Rightarrow> int" where
  "first_empty [] bd bestMove = bestMove"
| "first_empty (i # rest) bd bestMove =
     (if bd i = 0 then int i else first_empty rest bd bestMove)"

definition AIMove_Negamax :: "state \<Rightarrow> state" where
  "AIMove_Negamax s =
     (if gameOver s then s
      else
        (case AIMove_scan ORDER INT_MIN (- 1) s of
           (bestVal, bestMove, s1) \<Rightarrow>
             let bestMove' = (if bestMove = - 1 then first_empty [0..<9] (board s1) bestMove
                              else bestMove);
                 s2 = (if bestMove' \<noteq> - 1 then place (nat bestMove') 2 s1 else s1);
                 s3 = record_outcome s2
             in if \<not> gameOver s3 then s3\<lparr>currentPlayer := 1\<rparr> else s3))"

section \<open>The user interface as transitions (lines 157--258)\<close>

text \<open>
  The static board is zero-initialised and \<^verbatim>\<open>GameStartUp\<close> resets the game; the
  opponent is the computer until the checkbox says otherwise.
\<close>

definition initial_state :: state where
  "initial_state =
     \<lparr>board = (\<lambda>_. 0), currentPlayer = 1, gameOver = False, winner = 0, aiEnabled = True\<rparr>"

text \<open>The value of \<^verbatim>\<open>disabled\<close> for the button of a cell (lines 185--188).\<close>

definition cell_disabled :: "state \<Rightarrow> nat \<Rightarrow> bool" where
  "cell_disabled s idx =
     (let disabled = (gameOver s \<or> board s idx \<noteq> 0 \<or>
                      (if aiEnabled s \<and> currentPlayer s \<noteq> 2 \<and> currentPlayer s \<noteq> 1
                       then True else False));
          disabled = (if aiEnabled s
                      then gameOver s \<or> board s idx \<noteq> 0 \<or> currentPlayer s \<noteq> 1
                      else disabled);
          disabled = (if \<not> aiEnabled s then gameOver s \<or> board s idx \<noteq> 0 else disabled)
      in disabled)"

text \<open>What a click on an enabled button does (lines 192--208).\<close>

definition HumanClick :: "nat \<Rightarrow> state \<Rightarrow> state" where
  "HumanClick idx s =
     (let s1 = record_outcome (place idx (currentPlayer s) s)
      in if \<not> gameOver s1
         then (if aiEnabled s1 then AIMove_Negamax (s1\<lparr>currentPlayer := 2\<rparr>)
               else s1\<lparr>currentPlayer := (if currentPlayer s1 = 1 then 2 else 1)\<rparr>)
         else s1)"

text \<open>
  The states the program can be in between two events: it starts in the initial state,
  and an event is the Reset button, the checkbox, or a click on a button that is not
  disabled.
\<close>

inductive reachable :: "state \<Rightarrow> bool" where
  start: "reachable initial_state"
| reset: "reachable s \<Longrightarrow> reachable (ResetGame s)"
| checkbox: "reachable s \<Longrightarrow> reachable (s\<lparr>aiEnabled := \<not> aiEnabled s\<rparr>)"
| click: "reachable s \<Longrightarrow> idx < 9 \<Longrightarrow> \<not> cell_disabled s idx \<Longrightarrow> reachable (HumanClick idx s)"

text \<open>What \<^verbatim>\<open>RenderGame\<close> reports (lines 232--240).\<close>

datatype Outcome = InProgress | Win int | Draw

definition shown_outcome :: "state \<Rightarrow> Outcome" where
  "shown_outcome s =
     (if \<not> gameOver s then InProgress
      else if winner s = 0 then Draw
      else Win (winner s))"

section \<open>Notions of the specification\<close>

text \<open>A winning triplet is complete when its three cells are equal and not empty.\<close>

definition line_complete :: "cells \<Rightarrow> nat \<times> nat \<times> nat \<Rightarrow> bool" where
  "line_complete bd l = (case l of (l0, l1, l2) \<Rightarrow> bd l0 \<noteq> 0 \<and> bd l0 = bd l1 \<and> bd l1 = bd l2)"

text \<open>Player \<open>p\<close> has three in a row.\<close>

definition has_triplet :: "cells \<Rightarrow> int \<Rightarrow> bool" where
  "has_triplet bd p = list_ex (\<lambda>(l0, l1, l2). bd l0 = p \<and> bd l1 = p \<and> bd l2 = p) WINS"

text \<open>Every cell is empty, X or O.\<close>

definition valid_cells :: "cells \<Rightarrow> bool" where
  "valid_cells bd = list_all (\<lambda>i. bd i = 0 \<or> bd i = 1 \<or> bd i = 2) [0..<9]"

text \<open>
  The exhaustive negamax of the specification: every empty cell in index order, place,
  recurse with the negated side, negate, keep the maximum; no early exit.
\<close>

function Negamax_exhaustive :: "int \<Rightarrow> cells \<Rightarrow> int" where
  "Negamax_exhaustive side bd =
     (let signedWinner = CheckWinnerSigned bd
      in if signedWinner \<noteq> 0 then (if signedWinner = side then 1 else - 1)
         else if BoardFull bd then 0
         else foldl (\<lambda>best idx.
                 if bd idx \<noteq> 0 then best
                 else max best
                   (neg32 (Negamax_exhaustive (neg32 side) (bd(idx := (if side = 1 then 1 else 2))))))
               INT_MIN [0..<9])"
  by pat_completeness auto

termination Negamax_exhaustive
proof (relation "measure (\<lambda>(side, bd). empties bd)", goal_cases)
  case 1 show ?case by simp
next
  case (2 side bd x xa xb)
  then have idx: "xb \<in> set (filter (\<lambda>i. bd i = 0) [0..<9])" by simp
  have "filter (\<lambda>i. (bd(xb := if side = 1 then 1 else 2)) i = 0) [0..<9] =
        filter (\<lambda>i. i \<noteq> xb) (filter (\<lambda>i. bd i = 0) [0..<9])"
    unfolding filter_filter by (rule filter_cong) auto
  with length_filter_less[OF idx, of "\<lambda>i. i \<noteq> xb"] show ?case
    by (simp add: empties_def)
qed

declare Negamax_exhaustive.simps [simp del]

text \<open>
  X can force a win, by the rules of the game alone: a position is won for X when X
  has the win there, or when X is to move and some move leads to a position won for X,
  or O is to move and every move does.  A forced loss for O is a forced win for X.
\<close>

function X_forces_win :: "bool \<Rightarrow> cells \<Rightarrow> bool" where
  "X_forces_win x_to_move bd =
     (if CheckWinnerRaw bd \<noteq> 0 then CheckWinnerRaw bd = 1
      else if BoardFull bd then False
      else if x_to_move
           then list_ex (\<lambda>idx. if bd idx = 0 then X_forces_win False (bd(idx := 1)) else False) [0..<9]
           else list_all (\<lambda>idx. if bd idx = 0 then X_forces_win True (bd(idx := 2)) else True) [0..<9])"
  by pat_completeness auto
termination
proof (relation "measure (\<lambda>(x_to_move, bd). empties bd)", goal_cases)
  case 1 show ?case by simp
next
  case (2 x_to_move bd idx)
  then have idx: "idx \<in> set (filter (\<lambda>i. bd i = 0) [0..<9])" by simp
  have "filter (\<lambda>i. (bd(idx := 1)) i = 0) [0..<9] =
        filter (\<lambda>i. i \<noteq> idx) (filter (\<lambda>i. bd i = 0) [0..<9])"
    unfolding filter_filter by (rule filter_cong) auto
  with length_filter_less[OF idx, of "\<lambda>i. i \<noteq> idx"] show ?case
    by (simp add: empties_def)
next
  case (3 x_to_move bd idx)
  then have idx: "idx \<in> set (filter (\<lambda>i. bd i = 0) [0..<9])" by simp
  have "filter (\<lambda>i. (bd(idx := 2)) i = 0) [0..<9] =
        filter (\<lambda>i. i \<noteq> idx) (filter (\<lambda>i. bd i = 0) [0..<9])"
    unfolding filter_filter by (rule filter_cong) auto
  with length_filter_less[OF idx, of "\<lambda>i. i \<noteq> idx"] show ?case
    by (simp add: empties_def)
qed

declare X_forces_win.simps [simp del]

text \<open>
  The value of filling cell \<open>idx\<close> for the side to move, as the exhaustive negamax
  sees it.
\<close>

definition child_value :: "int \<Rightarrow> cells \<Rightarrow> nat \<Rightarrow> int" where
  "child_value side bd idx =
     neg32 (Negamax_exhaustive (neg32 side) (bd(idx := (if side = 1 then 1 else 2))))"

text \<open>
  What holds of every state the program can reach: the cells are 0, 1 or 2, the player
  to move is 1 or 2, no line is complete while the game goes on, and X and O never both
  have three in a row.
\<close>

definition game_invariant :: "state \<Rightarrow> bool" where
  "game_invariant s \<longleftrightarrow>
     valid_cells (board s) \<and>
     (currentPlayer s = 1 \<or> currentPlayer s = 2) \<and>
     (\<not> gameOver s \<longrightarrow> CheckWinnerRaw (board s) = 0) \<and>
     \<not> (has_triplet (board s) 1 \<and> has_triplet (board s) 2)"

section \<open>Place and undo\<close>

lemma place_undo: "board s idx = 0 \<Longrightarrow> place idx 0 (place idx v s) = s"
  by (simp add: place_def fun_upd_idem)

lemma Negamax_restores:
  "snd (Negamax side s) = s"
  "snd (Negamax_loop side xs best s) = s"
proof (induct side s and side xs best s rule: Negamax_Negamax_loop.induct)
  case (1 side s)
  then show ?case by (simp add: Negamax.simps Let_def)
next
  case (2 side best s)
  show ?case by (simp add: Negamax_loop.simps)
next
  case (3 side idx rest best s)
  show ?case
  proof (cases "board s idx \<noteq> 0")
    case True
    with 3 show ?thesis by (simp add: Negamax_loop.simps)
  next
    case False
    obtain r s1 where call: "Negamax (neg32 side) (place idx (if side = 1 then 1 else 2) s) = (r, s1)"
      by (cases "Negamax (neg32 side) (place idx (if side = 1 then 1 else 2) s)")
    from 3(2)[OF False] call have s1: "s1 = place idx (if side = 1 then 1 else 2) s" by simp
    have undo: "place idx 0 s1 = s" using False unfolding s1 by (simp add: place_undo)
    show ?thesis
    proof (cases "(if best < neg32 r then neg32 r else best) = 1")
      case True
      with False call undo show ?thesis by (simp add: Negamax_loop.simps Let_def)
    next
      case stay: False
      from 3(3)[OF False call[symmetric] refl refl refl stay] undo
      have "snd (Negamax_loop side rest (if best < neg32 r then neg32 r else best) s) = s" by simp
      with False call undo stay show ?thesis by (simp add: Negamax_loop.simps Let_def)
    qed
  qed
qed

section \<open>The search computes the exhaustive negamax value\<close>

lemma empties_place_less:
  assumes "idx < 9" "bd idx = 0" "v \<noteq> 0"
  shows "empties (bd(idx := v)) < empties bd"
proof -
  from assms have idx: "idx \<in> set (filter (\<lambda>i. bd i = 0) [0..<9])" by simp
  have "filter (\<lambda>i. (bd(idx := v)) i = 0) [0..<9] =
        filter (\<lambda>i. i \<noteq> idx) (filter (\<lambda>i. bd i = 0) [0..<9])"
    unfolding filter_filter using assms by (intro filter_cong) auto
  with length_filter_less[OF idx, of "\<lambda>i. i \<noteq> idx"] show ?thesis
    by (simp add: empties_def)
qed

lemma BoardFull_cells_iff: "BoardFull_cells xs bd \<longleftrightarrow> (\<forall>i\<in>set xs. bd i \<noteq> 0)"
  by (induction xs) auto

lemma BoardFull_iff: "BoardFull bd \<longleftrightarrow> (\<forall>i<9. bd i \<noteq> 0)"
  by (auto simp: BoardFull_def BoardFull_cells_iff)

lemma set_ORDER: "set ORDER = {0..<9}"
  unfolding ORDER_def by auto

lemma neg32_small: "v \<in> {- 1, 0, 1} \<Longrightarrow> neg32 v = - v"
  by (auto simp: neg32_def INT_MIN_def)

lemma Max_insert_max:
  "finite F \<Longrightarrow> Max (insert (max (b::int) v) F) = Max (insert b (insert v F))"
  by (cases "F = {}") (simp_all add: max.assoc)

lemma foldl_max_is_Max:
  "foldl (\<lambda>best idx. if bd idx \<noteq> 0 then best else max best (f idx)) b0 xs
   = Max (insert (b0::int) (f ` {i \<in> set xs. bd i = (0::int)}))"
proof (induction xs arbitrary: b0)
  case Nil
  show ?case by simp
next
  case (Cons x xs)
  show ?case
  proof (cases "bd x = 0")
    case True
    then have "{i \<in> set (x # xs). bd i = 0} = insert x {i \<in> set xs. bd i = 0}" by auto
    then show ?thesis using True Cons[of "max b0 (f x)"]
      by (simp add: Max_insert_max)
  next
    case False
    then have "{i \<in> set (x # xs). bd i = 0} = {i \<in> set xs. bd i = 0}" by auto
    then show ?thesis using False Cons[of b0] by simp
  qed
qed

lemma Negamax_exhaustive_unfold:
  "Negamax_exhaustive side bd =
     (if CheckWinnerSigned bd \<noteq> 0 then (if CheckWinnerSigned bd = side then 1 else - 1)
      else if BoardFull bd then 0
      else Max (insert INT_MIN (child_value side bd ` {i. i < 9 \<and> bd i = 0})))"
proof -
  have "{i \<in> set [0..<9]. bd i = 0} = {i. i < 9 \<and> bd i = 0}" by auto
  then show ?thesis
    unfolding child_value_def
    by (subst Negamax_exhaustive.simps) (simp add: Let_def foldl_max_is_Max del: upt_rec_numeral upt.simps)
qed

lemma Max_above_floor:
  assumes "finite F" "F \<noteq> {}" "\<forall>v\<in>F. (b::int) < v"
  shows "Max (insert b F) = Max F"
  using assms by (simp add: max_absorb2 less_imp_le Max_ge_iff)

lemma Negamax_exhaustive_range: "Negamax_exhaustive side bd \<in> {- 1, 0, 1}"
proof (induction "empties bd" arbitrary: side bd rule: less_induct)
  case less
  let ?E = "{i. i < 9 \<and> bd i = 0}"
  let ?F = "child_value side bd ` ?E"
  show ?case
  proof (cases "CheckWinnerSigned bd \<noteq> 0 \<or> BoardFull bd")
    case True
    then show ?thesis by (auto simp: Negamax_exhaustive_unfold)
  next
    case False
    then have ne: "?E \<noteq> {}" by (auto simp: BoardFull_iff)
    have small: "v \<in> {- 1, 0, 1}" if "v \<in> ?F" for v
    proof -
      from that obtain i where i: "i < 9" "bd i = 0" and v: "v = child_value side bd i" by auto
      have "empties (bd(i := (if side = 1 then 1 else 2))) < empties bd"
        using i by (simp add: empties_place_less)
      from less[OF this, of "neg32 side"] show ?thesis
        unfolding v child_value_def by (auto simp: neg32_small)
    qed
    have fin: "finite ?F" by simp
    have floor: "\<forall>v\<in>?F. INT_MIN < v"
    proof
      fix v assume "v \<in> ?F"
      from small[OF this] show "INT_MIN < v" by (auto simp: INT_MIN_def)
    qed
    have "Max (insert INT_MIN ?F) = Max ?F"
      using ne floor by (intro Max_above_floor fin) auto
    moreover have "Max ?F \<in> ?F" using ne by (intro Max_in fin) simp
    ultimately show ?thesis using False small by (simp add: Negamax_exhaustive_unfold)
  qed
qed

lemma Max_insert_top:
  "finite F \<Longrightarrow> \<forall>x\<in>F. x \<le> (t::int) \<Longrightarrow> Max (insert t F) = t"
  by (cases "F = {}") (simp_all add: max_absorb1)

lemma child_value_range: "child_value side bd idx \<in> {- 1, 0, 1}"
  using Negamax_exhaustive_range[of "neg32 side" "bd(idx := (if side = 1 then 1 else 2))"]
  unfolding child_value_def by (auto simp: neg32_small)

lemma child_value_le1: "child_value side bd idx \<le> 1"
  using child_value_range[of side bd idx] by auto

lemma Negamax_loop_is_Max:
  assumes "\<forall>idx\<in>set xs. board s idx = 0 \<longrightarrow>
             Negamax (neg32 side) (place idx (if side = 1 then 1 else 2) s) =
               (Negamax_exhaustive (neg32 side) ((board s)(idx := (if side = 1 then 1 else 2))),
                place idx (if side = 1 then 1 else 2) s)"
    and "best \<le> 1"
  shows "Negamax_loop side xs best s =
           (Max (insert best (child_value side (board s) ` {i \<in> set xs. board s i = 0})), s)"
  using assms
proof (induction xs arbitrary: best)
  case Nil
  show ?case by (simp add: Negamax_loop.simps)
next
  case (Cons idx rest)
  let ?F = "child_value side (board s) ` {i \<in> set rest. board s i = 0}"
  have fin: "finite ?F" by simp
  have le1: "\<forall>v\<in>?F. v \<le> 1" by (auto simp: child_value_le1)
  show ?case
  proof (cases "board s idx = 0")
    case False
    then have "{i \<in> set (idx # rest). board s i = 0} = {i \<in> set rest. board s i = 0}" by auto
    with False Cons.IH[of best] Cons.prems show ?thesis
      by (simp add: Negamax_loop.simps)
  next
    case True
    let ?v = "child_value side (board s) idx"
    have set: "{i \<in> set (idx # rest). board s i = 0} = insert idx {i \<in> set rest. board s i = 0}"
      using True by auto
    have call: "Negamax (neg32 side) (place idx (if side = 1 then 1 else 2) s) =
               (Negamax_exhaustive (neg32 side) ((board s)(idx := (if side = 1 then 1 else 2))),
                place idx (if side = 1 then 1 else 2) s)"
      using Cons.prems(1) True by (metis list.set_intros(1))
    have undo: "place idx 0 (place idx (if side = 1 then 1 else 2) s) = s"
      using True by (rule place_undo)
    have v: "?v \<in> {- 1, 0, 1}" by (rule child_value_range)
    have best': "(if best < ?v then ?v else best) = max best ?v" by (simp add: max_def)
    have step: "Negamax_loop side (idx # rest) best s =
            (if max best ?v = 1 then (max best ?v, s) else Negamax_loop side rest (max best ?v) s)"
      using True call undo best'
      by (subst Negamax_loop.simps) (simp add: Let_def child_value_def)
    show ?thesis
    proof (cases "max best ?v = 1")
      case True
      have "Max (insert best (insert ?v ?F)) = Max (insert (max best ?v) ?F)"
        by (simp add: Max_insert_max[OF fin])
      also have "\<dots> = 1" unfolding True by (rule Max_insert_top[OF fin le1])
      finally show ?thesis unfolding step set using True by simp
    next
      case False
      have b: "max best ?v \<le> 1" using Cons.prems(2) v by auto
      have "Negamax_loop side rest (max best ?v) s = (Max (insert (max best ?v) ?F), s)"
        using Cons.IH[OF _ b] Cons.prems(1) by simp
      then show ?thesis unfolding step set using False
        by (simp add: Max_insert_max[OF fin])
    qed
  qed
qed

lemma Negamax_is_exhaustive:
  "Negamax side s = (Negamax_exhaustive side (board s), s)"
proof (induction "empties (board s)" arbitrary: side s rule: less_induct)
  case less
  show ?case
  proof (cases "CheckWinnerSigned (board s) \<noteq> 0 \<or> BoardFull (board s)")
    case True
    then show ?thesis
      by (auto simp: Negamax.simps Negamax_exhaustive_unfold Let_def)
  next
    case False
    have calls: "\<forall>idx\<in>set ORDER. board s idx = 0 \<longrightarrow>
             Negamax (neg32 side) (place idx (if side = 1 then 1 else 2) s) =
               (Negamax_exhaustive (neg32 side) ((board s)(idx := (if side = 1 then 1 else 2))),
                place idx (if side = 1 then 1 else 2) s)"
    proof (intro ballI impI)
      fix idx assume "idx \<in> set ORDER" and e: "board s idx = 0"
      then have "idx < 9" by (simp add: set_ORDER)
      then have "empties (board (place idx (if side = 1 then 1 else 2) s)) < empties (board s)"
        using e by (simp add: place_def empties_place_less)
      from less[OF this, of "neg32 side"]
      show "Negamax (neg32 side) (place idx (if side = 1 then 1 else 2) s) =
               (Negamax_exhaustive (neg32 side) ((board s)(idx := (if side = 1 then 1 else 2))),
                place idx (if side = 1 then 1 else 2) s)"
        by (simp add: place_def)
    qed
    have "{i \<in> set ORDER. board s i = 0} = {i. i < 9 \<and> board s i = 0}"
      by (auto simp: set_ORDER)
    with Negamax_loop_is_Max[OF calls, of INT_MIN] False show ?thesis
      by (simp add: Negamax.simps Negamax_exhaustive_unfold Let_def INT_MIN_def)
  qed
qed

section \<open>The scoring loop of the computer's move\<close>

lemma child_value_O: "child_value (- 1) bd idx = neg32 (Negamax_exhaustive 1 (bd(idx := 2)))"
  by (simp add: child_value_def neg32_def INT_MIN_def)

lemma AIMove_scan_step:
  assumes "board s idx = 0"
  shows "AIMove_scan (idx # rest) bestVal bestMove s =
          (if child_value (- 1) (board s) idx > bestVal
           then (if child_value (- 1) (board s) idx = 1
                 then (child_value (- 1) (board s) idx, int idx, s)
                 else AIMove_scan rest (child_value (- 1) (board s) idx) (int idx) s)
           else AIMove_scan rest bestVal bestMove s)"
proof -
  have "Negamax 1 (place idx 2 s) = (Negamax_exhaustive 1 ((board s)(idx := 2)), place idx 2 s)"
    by (simp add: Negamax_is_exhaustive place_def)
  then show ?thesis
    using assms place_undo[OF assms, of 2] by (simp add: Let_def child_value_O)
qed

lemma AIMove_scan_restores: "snd (snd (AIMove_scan xs bestVal bestMove s)) = s"
proof (induction xs arbitrary: bestVal bestMove)
  case Nil
  show ?case by simp
next
  case (Cons idx rest)
  show ?case
  proof (cases "board s idx = 0")
    case False
    with Cons show ?thesis by simp
  next
    case True
    show ?thesis unfolding AIMove_scan_step[OF True] using Cons by simp
  qed
qed

lemma board_record_outcome: "board (record_outcome s) = board s"
  by (simp add: record_outcome_def Let_def)

section \<open>The win check and the outcome\<close>

lemma CheckWinnerRaw_lines_find:
  "CheckWinnerRaw_lines ls bd =
     (case find (line_complete bd) ls of None \<Rightarrow> 0 | Some (l0, l1, l2) \<Rightarrow> bd l0)"
  by (induction ls bd rule: CheckWinnerRaw_lines.induct) (auto simp: line_complete_def Let_def)

lemma CheckWinnerRaw_find:
  "CheckWinnerRaw bd =
     (case find (line_complete bd) WINS of None \<Rightarrow> 0 | Some (l0, l1, l2) \<Rightarrow> bd l0)"
  by (simp add: CheckWinnerRaw_def CheckWinnerRaw_lines_find)

lemma find_Some_complete: "find P xs = Some x \<Longrightarrow> P x \<and> x \<in> set xs"
  by (induction xs) (auto split: if_splits)

lemma CheckWinnerRaw_nonzero_iff:
  "CheckWinnerRaw bd \<noteq> 0 \<longleftrightarrow> list_ex (line_complete bd) WINS"
proof (cases "find (line_complete bd) WINS")
  case None
  have "CheckWinnerRaw bd = 0" by (simp add: CheckWinnerRaw_find None)
  moreover have "\<not> list_ex (line_complete bd) WINS"
    using None by (auto simp: find_None_iff list_ex_iff)
  ultimately show ?thesis by simp
next
  case (Some l)
  from find_Some_complete[OF Some] show ?thesis
    using Some by (auto simp: CheckWinnerRaw_find list_ex_iff line_complete_def)
qed

lemma all_cells_iff: "(\<forall>i<9. P i) \<longleftrightarrow> list_all P [0..<9]"
  by (auto simp: list_all_iff)

lemma shown_outcome_record:
  "shown_outcome (record_outcome s) =
     (case find (line_complete (board s)) WINS of
        Some (l0, l1, l2) \<Rightarrow> Win (board s l0)
      | None \<Rightarrow> if (\<forall>i<9. board s i \<noteq> 0) then Draw else InProgress)"
proof (cases "find (line_complete (board s)) WINS")
  case None
  then show ?thesis
    by (simp add: shown_outcome_def record_outcome_def Let_def CheckWinnerRaw_find BoardFull_iff)
next
  case (Some l)
  from find_Some_complete[OF Some] have "line_complete (board s) l" by simp
  then show ?thesis using Some
    by (auto simp: shown_outcome_def record_outcome_def Let_def CheckWinnerRaw_find line_complete_def)
qed

lemma valid_cells_iff: "valid_cells bd \<longleftrightarrow> (\<forall>i<9. bd i = 0 \<or> bd i = 1 \<or> bd i = 2)"
  by (auto simp: valid_cells_def list_all_iff)

lemma WINS_in_range: "(l0, l1, l2) \<in> set WINS \<Longrightarrow> l0 < 9 \<and> l1 < 9 \<and> l2 < 9"
  by (auto simp: WINS_def)

lemma CheckWinnerRaw_valid:
  assumes "valid_cells bd"
  shows "CheckWinnerRaw bd \<in> {0, 1, 2}"
proof (cases "find (line_complete bd) WINS")
  case None
  then show ?thesis by (simp add: CheckWinnerRaw_find)
next
  case (Some l)
  obtain l0 l1 l2 where l: "l = (l0, l1, l2)" by (cases l)
  from find_Some_complete[OF Some] have "l0 < 9" unfolding l by (auto dest: WINS_in_range)
  with assms have "bd l0 \<in> {0, 1, 2}" by (auto simp: valid_cells_iff)
  then show ?thesis using Some l by (simp add: CheckWinnerRaw_find)
qed

lemma CheckWinnerSigned_valid:
  assumes "valid_cells bd"
  shows "CheckWinnerSigned bd \<noteq> 0 \<longleftrightarrow> list_ex (line_complete bd) WINS"
  using CheckWinnerRaw_valid[OF assms] CheckWinnerRaw_nonzero_iff[of bd]
  by (auto simp: CheckWinnerSigned_def Let_def)

lemma CheckWinnerSigned_cases:
  assumes "valid_cells bd"
  shows "CheckWinnerSigned bd = (if CheckWinnerRaw bd = 0 then 0 else if CheckWinnerRaw bd = 1 then 1 else - 1)"
  using CheckWinnerRaw_valid[OF assms] by (auto simp: CheckWinnerSigned_def Let_def)

lemma has_triplet_iff:
  "has_triplet bd p \<longleftrightarrow> (\<exists>(l0, l1, l2)\<in>set WINS. bd l0 = p \<and> bd l1 = p \<and> bd l2 = p)"
  by (simp add: has_triplet_def list_ex_iff)

lemma no_winner_no_triplet:
  assumes "CheckWinnerRaw bd = 0" and "p \<noteq> 0"
  shows "\<not> has_triplet bd p"
proof
  assume "has_triplet bd p"
  then obtain l where "l \<in> set WINS" "line_complete bd l"
    using assms(2) by (auto simp: has_triplet_iff line_complete_def)
  then have "list_ex (line_complete bd) WINS" by (auto simp: list_ex_iff)
  with assms(1) show False using CheckWinnerRaw_nonzero_iff[of bd] by simp
qed

lemma triplet_of_other:
  assumes "has_triplet (bd(idx := q)) p" and "p \<noteq> q"
  shows "has_triplet bd p"
proof -
  from assms(1) obtain l0 l1 l2 where l: "(l0, l1, l2) \<in> set WINS"
    and c: "(bd(idx := q)) l0 = p" "(bd(idx := q)) l1 = p" "(bd(idx := q)) l2 = p"
    by (auto simp: has_triplet_iff)
  from c assms(2) have "bd l0 = p \<and> bd l1 = p \<and> bd l2 = p"
    by (auto split: if_splits)
  with l show ?thesis unfolding has_triplet_iff by (intro bexI[of _ "(l0, l1, l2)"]) auto
qed

lemma CheckWinnerRaw_owner:
  assumes "CheckWinnerRaw bd \<noteq> 0"
  shows "has_triplet bd (CheckWinnerRaw bd)"
proof (cases "find (line_complete bd) WINS")
  case None
  with assms show ?thesis by (simp add: CheckWinnerRaw_find)
next
  case (Some l)
  obtain l0 l1 l2 where l: "l = (l0, l1, l2)" by (cases l)
  from find_Some_complete[OF Some] have "(l0, l1, l2) \<in> set WINS"
    and "bd l0 = bd l1" "bd l1 = bd l2"
    unfolding l by (auto simp: line_complete_def)
  moreover have "CheckWinnerRaw bd = bd l0" using Some l by (simp add: CheckWinnerRaw_find)
  ultimately show ?thesis unfolding has_triplet_iff by (intro bexI[of _ "(l0, l1, l2)"]) auto
qed

lemma valid_cells_place:
  "valid_cells bd \<Longrightarrow> p \<in> {0, 1, 2} \<Longrightarrow> valid_cells (bd(idx := p))"
  by (auto simp: valid_cells_iff)

section \<open>What the scoring loop returns\<close>

lemma AIMove_scan_spec:
  assumes "\<forall>i\<in>set xs. i < 9"
    and "(bestMove = - 1 \<and> bestVal = INT_MIN) \<or>
         (\<exists>m<9. bestMove = int m \<and> board s m = 0 \<and> child_value (- 1) (board s) m = bestVal)"
  shows "\<exists>bv bm. AIMove_scan xs bestVal bestMove s = (bv, bm, s) \<and>
           ((bm = - 1 \<and> bv = INT_MIN \<and> (\<forall>i\<in>set xs. board s i \<noteq> 0)) \<or>
            (\<exists>m<9. bm = int m \<and> board s m = 0 \<and> child_value (- 1) (board s) m = bv)) \<and>
           bestVal \<le> bv \<and>
           (\<forall>i\<in>set xs. board s i = 0 \<longrightarrow> child_value (- 1) (board s) i \<le> bv)"
  using assms
proof (induction xs arbitrary: bestVal bestMove)
  case Nil
  then show ?case by auto
next
  case (Cons idx rest)
  from Cons.prems(1) have idx: "idx < 9" and rest: "\<forall>i\<in>set rest. i < 9" by simp_all
  let ?v = "child_value (- 1) (board s) idx"
  show ?case
  proof (cases "board s idx = 0")
    case False
    from Cons.IH[OF rest Cons.prems(2)] False show ?thesis by auto
  next
    case True
    note step = AIMove_scan_step[OF True, of rest bestVal bestMove]
    show ?thesis
    proof (cases "?v > bestVal")
      case False
      from Cons.IH[OF rest Cons.prems(2)] obtain bv bm where
        r: "AIMove_scan rest bestVal bestMove s = (bv, bm, s)"
        and c: "(bm = - 1 \<and> bv = INT_MIN \<and> (\<forall>i\<in>set rest. board s i \<noteq> 0)) \<or>
            (\<exists>m<9. bm = int m \<and> board s m = 0 \<and> child_value (- 1) (board s) m = bv)"
        and le: "bestVal \<le> bv"
        and ub: "\<forall>i\<in>set rest. board s i = 0 \<longrightarrow> child_value (- 1) (board s) i \<le> bv"
        by blast
      have "bv \<noteq> INT_MIN" using False le child_value_range[of "- 1" "board s" idx]
        by (auto simp: INT_MIN_def)
      with c have c': "\<exists>m<9. bm = int m \<and> board s m = 0 \<and> child_value (- 1) (board s) m = bv"
        by blast
      show ?thesis unfolding step using False r c' le ub by auto
    next
      case better: True
      show ?thesis
      proof (cases "?v = 1")
        case True
        have "\<forall>i\<in>set (idx # rest). child_value (- 1) (board s) i \<le> 1"
          by (simp add: child_value_le1)
        then show ?thesis unfolding step using better True idx \<open>board s idx = 0\<close>
          by auto
      next
        case False
        have inv: "(int idx = - 1 \<and> ?v = INT_MIN) \<or>
             (\<exists>m<9. int idx = int m \<and> board s m = 0 \<and> child_value (- 1) (board s) m = ?v)"
          using idx True by blast
        from Cons.IH[OF rest inv] obtain bv bm where
          r: "AIMove_scan rest ?v (int idx) s = (bv, bm, s)"
          and c: "(bm = - 1 \<and> bv = INT_MIN \<and> (\<forall>i\<in>set rest. board s i \<noteq> 0)) \<or>
            (\<exists>m<9. bm = int m \<and> board s m = 0 \<and> child_value (- 1) (board s) m = bv)"
          and le: "?v \<le> bv"
          and ub: "\<forall>i\<in>set rest. board s i = 0 \<longrightarrow> child_value (- 1) (board s) i \<le> bv"
          by blast
        have "bv \<noteq> INT_MIN" using le child_value_range[of "- 1" "board s" idx]
          by (auto simp: INT_MIN_def)
        with c have c': "\<exists>m<9. bm = int m \<and> board s m = 0 \<and> child_value (- 1) (board s) m = bv"
          by blast
        show ?thesis unfolding step using better False r c' le ub by auto
      qed
    qed
  qed
qed

lemma AIMove_scan_ORDER:
  assumes "\<exists>i<9. board s i = 0"
  shows "\<exists>bv m. AIMove_scan ORDER INT_MIN (- 1) s = (bv, int m, s) \<and> m < 9 \<and> board s m = 0 \<and>
           child_value (- 1) (board s) m = bv \<and>
           (\<forall>i<9. board s i = 0 \<longrightarrow> child_value (- 1) (board s) i \<le> bv)"
proof -
  have "\<forall>i\<in>set ORDER. i < 9" by (simp add: set_ORDER)
  from AIMove_scan_spec[OF this, of "- 1" INT_MIN s] obtain bv bm where
    r: "AIMove_scan ORDER INT_MIN (- 1) s = (bv, bm, s)"
    and c: "(bm = - 1 \<and> bv = INT_MIN \<and> (\<forall>i\<in>set ORDER. board s i \<noteq> 0)) \<or>
            (\<exists>m<9. bm = int m \<and> board s m = 0 \<and> child_value (- 1) (board s) m = bv)"
    and ub: "\<forall>i\<in>set ORDER. board s i = 0 \<longrightarrow> child_value (- 1) (board s) i \<le> bv"
    by blast
  from assms have "\<not> (\<forall>i\<in>set ORDER. board s i \<noteq> 0)" by (auto simp: set_ORDER)
  with c obtain m where "m < 9" "bm = int m" "board s m = 0" "child_value (- 1) (board s) m = bv"
    by blast
  with r ub show ?thesis by (auto simp: set_ORDER)
qed

lemma AIMove_Negamax_board:
  assumes "\<not> gameOver s" and "AIMove_scan ORDER INT_MIN (- 1) s = (bv, int m, s)"
  shows "board (AIMove_Negamax s) = (board s)(m := 2)"
  using assms by (simp add: AIMove_Negamax_def Let_def board_record_outcome place_def)

lemma AIMove_Negamax_commits:
  assumes "\<not> gameOver s" and "\<exists>i<9. board s i = 0"
  shows "\<exists>m<9. board s m = 0 \<and>
           AIMove_Negamax s =
             (if \<not> gameOver (record_outcome (place m 2 s))
              then (record_outcome (place m 2 s))\<lparr>currentPlayer := 1\<rparr>
              else record_outcome (place m 2 s))"
proof -
  from AIMove_scan_ORDER[OF assms(2)] obtain bv m where
    r: "AIMove_scan ORDER INT_MIN (- 1) s = (bv, int m, s)" and m: "m < 9" "board s m = 0"
    by blast
  have "AIMove_Negamax s =
             (if \<not> gameOver (record_outcome (place m 2 s))
              then (record_outcome (place m 2 s))\<lparr>currentPlayer := 1\<rparr>
              else record_outcome (place m 2 s))"
    using assms(1) r by (simp add: AIMove_Negamax_def Let_def)
  with m show ?thesis by blast
qed

section \<open>The invariant of the reachable states\<close>

lemma committed_move:
  assumes "valid_cells (board s)" and "CheckWinnerRaw (board s) = 0"
    and "p = 1 \<or> p = 2"
  shows "valid_cells (board (record_outcome (place idx p s)))"
    and "\<not> gameOver (record_outcome (place idx p s)) \<Longrightarrow>
           CheckWinnerRaw (board (record_outcome (place idx p s))) = 0"
    and "\<not> (has_triplet (board (record_outcome (place idx p s))) 1 \<and>
            has_triplet (board (record_outcome (place idx p s))) 2)"
    and "currentPlayer (record_outcome (place idx p s)) = currentPlayer s"
proof -
  have b: "board (record_outcome (place idx p s)) = (board s)(idx := p)"
    by (simp add: board_record_outcome place_def)
  show "valid_cells (board (record_outcome (place idx p s)))"
    unfolding b using assms(1,3) by (auto intro: valid_cells_place)
  show "\<not> gameOver (record_outcome (place idx p s)) \<Longrightarrow>
           CheckWinnerRaw (board (record_outcome (place idx p s))) = 0"
    by (simp add: record_outcome_def Let_def)
  have none: "\<not> has_triplet (board s) q" if "q \<noteq> 0" for q
    using no_winner_no_triplet[OF assms(2) that] .
  show "\<not> (has_triplet (board (record_outcome (place idx p s))) 1 \<and>
            has_triplet (board (record_outcome (place idx p s))) 2)"
    unfolding b using assms(3) none[of 1] none[of 2]
      triplet_of_other[of "board s" idx p 1] triplet_of_other[of "board s" idx p 2]
    by auto
  show "currentPlayer (record_outcome (place idx p s)) = currentPlayer s"
    by (simp add: record_outcome_def Let_def place_def)
qed

lemma game_invariant_click:
  assumes inv: "game_invariant s" and en: "\<not> cell_disabled s idx"
  shows "game_invariant (HumanClick idx s)"
proof -
  from en have go: "\<not> gameOver s"
    by (auto simp: cell_disabled_def Let_def split: if_splits)
  with inv have v: "valid_cells (board s)" and w: "CheckWinnerRaw (board s) = 0"
    and p: "currentPlayer s = 1 \<or> currentPlayer s = 2"
    by (auto simp: game_invariant_def)
  let ?s1 = "record_outcome (place idx (currentPlayer s) s)"
  note m1 = committed_move[OF v w p, of idx]
  have inv1: "game_invariant ?s1"
    using m1 p by (auto simp: game_invariant_def)
  show ?thesis
  proof (cases "gameOver ?s1")
    case True
    with inv1 show ?thesis by (simp add: HumanClick_def Let_def)
  next
    case False
    show ?thesis
    proof (cases "aiEnabled ?s1")
      case no_ai: False
      have "game_invariant (?s1\<lparr>currentPlayer := (if currentPlayer ?s1 = 1 then 2 else 1)\<rparr>)"
        using inv1 by (simp add: game_invariant_def)
      with False no_ai show ?thesis by (simp add: HumanClick_def Let_def)
    next
      case ai: True
      let ?s2 = "?s1\<lparr>currentPlayer := 2\<rparr>"
      have w2: "CheckWinnerRaw (board ?s2) = 0" and v2: "valid_cells (board ?s2)"
        using m1(1) m1(2)[OF False] by simp_all
      have "\<not> BoardFull (board ?s1)" using False by (simp add: record_outcome_def Let_def)
      then have ex: "\<exists>i<9. board ?s2 i = 0" by (auto simp: BoardFull_iff)
      have go2: "\<not> gameOver ?s2" using False by simp
      from AIMove_Negamax_commits[OF go2 ex] obtain m where
        a: "AIMove_Negamax ?s2 =
             (if \<not> gameOver (record_outcome (place m 2 ?s2))
              then (record_outcome (place m 2 ?s2))\<lparr>currentPlayer := 1\<rparr>
              else record_outcome (place m 2 ?s2))"
        by blast
      have two: "(2::int) = 1 \<or> (2::int) = 2" by simp
      note m2 = committed_move[OF v2 w2 two, of m]
      have inv3: "game_invariant (record_outcome (place m 2 ?s2))"
        using m2 by (simp add: game_invariant_def)
      then have "game_invariant (AIMove_Negamax ?s2)"
        unfolding a by (simp add: game_invariant_def)
      with False ai show ?thesis by (simp add: HumanClick_def Let_def)
    qed
  qed
qed

lemma reachable_invariant: "reachable s \<Longrightarrow> game_invariant s"
proof (induction rule: reachable.induct)
  case start
  have "CheckWinnerRaw (\<lambda>_. 0) = 0" by (simp add: CheckWinnerRaw_def WINS_def)
  moreover have "\<not> has_triplet (\<lambda>_. 0) 1" by (simp add: has_triplet_def WINS_def)
  ultimately show ?case
    by (simp add: game_invariant_def initial_state_def valid_cells_iff)
next
  case (reset s)
  have "CheckWinnerRaw (\<lambda>_. 0) = 0" by (simp add: CheckWinnerRaw_def WINS_def)
  moreover have "\<not> has_triplet (\<lambda>_. 0) 1" by (simp add: has_triplet_def WINS_def)
  ultimately show ?case
    by (simp add: game_invariant_def ResetGame_def valid_cells_iff)
next
  case (checkbox s)
  then show ?case by (simp add: game_invariant_def)
next
  case (click s idx)
  then show ?case by (simp add: game_invariant_click)
qed

lemma cells_0_to_8: "[0..<9] = [0, 1, 2, 3, 4, 5, 6, 7, 8]"
  by code_simp

lemma reachable_two_player_win:
  "reachable \<lparr>board = (\<lambda>_. 0)(0 := 1, 3 := 2, 1 := 1, 4 := 2, 2 := 1), currentPlayer = 1,
              gameOver = True, winner = 1, aiEnabled = False\<rparr>"
proof -
  note ev = HumanClick_def cell_disabled_def record_outcome_def place_def Let_def
    CheckWinnerRaw_def WINS_def BoardFull_def cells_0_to_8
  have r0: "reachable \<lparr>board = (\<lambda>_. 0), currentPlayer = 1, gameOver = False, winner = 0,
                       aiEnabled = False\<rparr>"
    using reachable.checkbox[OF reachable.start] by (simp add: initial_state_def)
  have r1: "reachable \<lparr>board = (\<lambda>_. 0)(0 := 1), currentPlayer = 2, gameOver = False, winner = 0,
                       aiEnabled = False\<rparr>"
    using reachable.click[OF r0, of 0] by (simp add: ev)
  have r2: "reachable \<lparr>board = (\<lambda>_. 0)(0 := 1, 3 := 2), currentPlayer = 1, gameOver = False,
                       winner = 0, aiEnabled = False\<rparr>"
    using reachable.click[OF r1, of 3] by (simp add: ev)
  have r3: "reachable \<lparr>board = (\<lambda>_. 0)(0 := 1, 3 := 2, 1 := 1), currentPlayer = 2,
                       gameOver = False, winner = 0, aiEnabled = False\<rparr>"
    using reachable.click[OF r2, of 1] by (simp add: ev)
  have r4: "reachable \<lparr>board = (\<lambda>_. 0)(0 := 1, 3 := 2, 1 := 1, 4 := 2), currentPlayer = 1,
                       gameOver = False, winner = 0, aiEnabled = False\<rparr>"
    using reachable.click[OF r3, of 4] by (simp add: ev)
  show ?thesis
    using reachable.click[OF r4, of 2] by (simp add: ev)
qed

lemma reachable_two_player_seven:
  "reachable \<lparr>board = (\<lambda>_. 0)(0 := 1, 4 := 2, 1 := 1, 2 := 2, 6 := 1, 3 := 2, 5 := 1),
              currentPlayer = 2, gameOver = False, winner = 0, aiEnabled = False\<rparr>"
proof -
  note ev = HumanClick_def cell_disabled_def record_outcome_def place_def Let_def
    CheckWinnerRaw_def WINS_def BoardFull_def cells_0_to_8
  have r0: "reachable \<lparr>board = (\<lambda>_. 0), currentPlayer = 1, gameOver = False, winner = 0,
                       aiEnabled = False\<rparr>"
    using reachable.checkbox[OF reachable.start] by (simp add: initial_state_def)
  have r1: "reachable \<lparr>board = (\<lambda>_. 0)(0 := 1), currentPlayer = 2, gameOver = False, winner = 0,
                       aiEnabled = False\<rparr>"
    using reachable.click[OF r0, of 0] by (simp add: ev)
  have r2: "reachable \<lparr>board = (\<lambda>_. 0)(0 := 1, 4 := 2), currentPlayer = 1, gameOver = False,
                       winner = 0, aiEnabled = False\<rparr>"
    using reachable.click[OF r1, of 4] by (simp add: ev)
  have r3: "reachable \<lparr>board = (\<lambda>_. 0)(0 := 1, 4 := 2, 1 := 1), currentPlayer = 2,
                       gameOver = False, winner = 0, aiEnabled = False\<rparr>"
    using reachable.click[OF r2, of 1] by (simp add: ev)
  have r4: "reachable \<lparr>board = (\<lambda>_. 0)(0 := 1, 4 := 2, 1 := 1, 2 := 2), currentPlayer = 1,
                       gameOver = False, winner = 0, aiEnabled = False\<rparr>"
    using reachable.click[OF r3, of 2] by (simp add: ev)
  have r5: "reachable \<lparr>board = (\<lambda>_. 0)(0 := 1, 4 := 2, 1 := 1, 2 := 2, 6 := 1),
                       currentPlayer = 2, gameOver = False, winner = 0, aiEnabled = False\<rparr>"
    using reachable.click[OF r4, of 6] by (simp add: ev)
  have r6: "reachable \<lparr>board = (\<lambda>_. 0)(0 := 1, 4 := 2, 1 := 1, 2 := 2, 6 := 1, 3 := 2),
                       currentPlayer = 1, gameOver = False, winner = 0, aiEnabled = False\<rparr>"
    using reachable.click[OF r5, of 3] by (simp add: ev)
  show ?thesis
    using reachable.click[OF r6, of 5] by (simp add: ev)
qed

section \<open>Negamax values and forced wins\<close>

lemma X_forces_win_unfold:
  "X_forces_win x_to_move bd =
     (if CheckWinnerRaw bd \<noteq> 0 then CheckWinnerRaw bd = 1
      else if BoardFull bd then False
      else if x_to_move then (\<exists>i<9. bd i = 0 \<and> X_forces_win False (bd(i := 1)))
      else (\<forall>i<9. bd i = 0 \<longrightarrow> X_forces_win True (bd(i := 2))))"
  by (subst X_forces_win.simps) (auto simp: list_ex_iff list_all_iff)

lemma Max_is_top:
  assumes "finite F" "F \<noteq> {}" "\<forall>v\<in>F. v \<in> {- 1, 0, 1::int}"
  shows "Max (insert INT_MIN F) = 1 \<longleftrightarrow> 1 \<in> F"
proof -
  have "\<forall>v\<in>F. INT_MIN < v" using assms(3) by (auto simp: INT_MIN_def)
  then have m: "Max (insert INT_MIN F) = Max F" using assms(1,2) by (intro Max_above_floor)
  have in_F: "Max F \<in> F" using assms(1,2) by (rule Max_in)
  have "Max F = 1" if "1 \<in> F"
  proof -
    from that have "1 \<le> Max F" using assms(1) by (simp add: Max_ge)
    moreover have "Max F \<le> 1" using in_F assms(3) by auto
    ultimately show ?thesis by simp
  qed
  with in_F show ?thesis unfolding m by auto
qed

lemma Max_is_bottom:
  assumes "finite F" "F \<noteq> {}" "\<forall>v\<in>F. v \<in> {- 1, 0, 1::int}"
  shows "Max (insert INT_MIN F) = - 1 \<longleftrightarrow> (\<forall>v\<in>F. v = - 1)"
proof -
  have "\<forall>v\<in>F. INT_MIN < v" using assms(3) by (auto simp: INT_MIN_def)
  then have m: "Max (insert INT_MIN F) = Max F" using assms(1,2) by (intro Max_above_floor)
  have in_F: "Max F \<in> F" using assms(1,2) by (rule Max_in)
  have "v = - 1" if "Max F = - 1" "v \<in> F" for v
  proof -
    from that(2) have "v \<le> Max F" using assms(1) by (simp add: Max_ge)
    with that assms(3) show ?thesis by auto
  qed
  moreover have "Max F = - 1" if "\<forall>v\<in>F. v = - 1"
    using that in_F by blast
  ultimately show ?thesis unfolding m by blast
qed

lemma child_value_X: "child_value 1 bd idx = - Negamax_exhaustive (- 1) (bd(idx := 1))"
proof -
  have "neg32 1 = - 1" by (simp add: neg32_def INT_MIN_def)
  then show ?thesis
    using Negamax_exhaustive_range[of "- 1" "bd(idx := 1)"]
    by (simp add: child_value_def neg32_small)
qed

lemma child_value_O_neg: "child_value (- 1) bd idx = - Negamax_exhaustive 1 (bd(idx := 2))"
  using Negamax_exhaustive_range[of 1 "bd(idx := 2)"]
  by (simp add: child_value_O neg32_small)

lemma Negamax_exhaustive_forced:
  assumes "valid_cells bd"
  shows "(Negamax_exhaustive 1 bd = 1 \<longleftrightarrow> X_forces_win True bd) \<and>
         (Negamax_exhaustive (- 1) bd = - 1 \<longleftrightarrow> X_forces_win False bd)"
  using assms
proof (induction "empties bd" arbitrary: bd rule: less_induct)
  case less
  note v = less.prems
  note sw = CheckWinnerSigned_cases[OF v]
  show ?case
  proof (cases "CheckWinnerRaw bd \<noteq> 0 \<or> BoardFull bd")
    case True
    then show ?thesis
      by (subst (1 2) Negamax_exhaustive_unfold, subst (1 2) X_forces_win_unfold)
         (auto simp: sw)
  next
    case False
    let ?E = "{i. i < 9 \<and> bd i = 0}"
    from False have ne: "?E \<noteq> {}" by (auto simp: BoardFull_iff)
    have IH1: "Negamax_exhaustive (- 1) (bd(i := 1)) = - 1 \<longleftrightarrow> X_forces_win False (bd(i := 1))"
      if "i < 9" "bd i = 0" for i
    proof -
      have "empties (bd(i := 1)) < empties bd" using that by (simp add: empties_place_less)
      moreover have "valid_cells (bd(i := 1))" using v by (simp add: valid_cells_place)
      ultimately show ?thesis using less.hyps by blast
    qed
    have IH2: "Negamax_exhaustive 1 (bd(i := 2)) = 1 \<longleftrightarrow> X_forces_win True (bd(i := 2))"
      if "i < 9" "bd i = 0" for i
    proof -
      have "empties (bd(i := 2)) < empties bd" using that by (simp add: empties_place_less)
      moreover have "valid_cells (bd(i := 2))" using v by (simp add: valid_cells_place)
      ultimately show ?thesis using less.hyps by blast
    qed
    have r: "\<forall>v\<in>child_value side bd ` ?E. v \<in> {- 1, 0, 1}" for side
      using child_value_range[of side bd] by blast
    have X: "Negamax_exhaustive 1 bd = 1 \<longleftrightarrow> (\<exists>i<9. bd i = 0 \<and> X_forces_win False (bd(i := 1)))"
    proof -
      have "Negamax_exhaustive 1 bd = Max (insert INT_MIN (child_value 1 bd ` ?E))"
        using False by (subst Negamax_exhaustive_unfold) (simp add: sw)
      also have "\<dots> = 1 \<longleftrightarrow> 1 \<in> child_value 1 bd ` ?E"
        using ne r[of 1] by (intro Max_is_top) auto
      also have "\<dots> \<longleftrightarrow> (\<exists>i<9. bd i = 0 \<and> Negamax_exhaustive (- 1) (bd(i := 1)) = - 1)"
        by (auto simp: child_value_X image_iff)
      also have "\<dots> \<longleftrightarrow> (\<exists>i<9. bd i = 0 \<and> X_forces_win False (bd(i := 1)))"
        using IH1 by blast
      finally show ?thesis .
    qed
    have O: "Negamax_exhaustive (- 1) bd = - 1 \<longleftrightarrow> (\<forall>i<9. bd i = 0 \<longrightarrow> X_forces_win True (bd(i := 2)))"
    proof -
      have "Negamax_exhaustive (- 1) bd = Max (insert INT_MIN (child_value (- 1) bd ` ?E))"
        using False by (subst Negamax_exhaustive_unfold) (simp add: sw)
      also have "\<dots> = - 1 \<longleftrightarrow> (\<forall>v\<in>child_value (- 1) bd ` ?E. v = - 1)"
        using ne r[of "- 1"] by (intro Max_is_bottom) auto
      also have "\<dots> \<longleftrightarrow> (\<forall>i<9. bd i = 0 \<longrightarrow> Negamax_exhaustive 1 (bd(i := 2)) = 1)"
        by (auto simp: child_value_O_neg)
      also have "\<dots> \<longleftrightarrow> (\<forall>i<9. bd i = 0 \<longrightarrow> X_forces_win True (bd(i := 2)))"
        using IH2 by blast
      finally show ?thesis .
    qed
    show ?thesis
      using False X O by (subst (1 2) X_forces_win_unfold) simp
  qed
qed

section \<open>Moving first is no worse than moving second\<close>

text \<open>
  Filling an empty cell keeps the complete triplets there were and can only add
  triplets of the mark put in.  From this, by induction on the number of empty cells:
  an extra X never lowers the value of a position for X, whoever is to move, and so
  the value for X moving first is at least the value for X when O moves first.
\<close>

lemma CheckWinnerRaw_lines_Cons:
  "CheckWinnerRaw_lines ((l0, l1, l2) # ls) bd =
     (if line_complete bd (l0, l1, l2) then bd l0 else CheckWinnerRaw_lines ls bd)"
  by (simp add: line_complete_def Let_def)

lemma line_complete_kept:
  assumes "bd i = 0" and "line_complete bd (l0, l1, l2)"
  shows "line_complete (bd(i := p)) (l0, l1, l2) \<and> (bd(i := p)) l0 = bd l0"
proof -
  from assms have "i \<noteq> l0" "i \<noteq> l1" "i \<noteq> l2"
    unfolding line_complete_def by auto
  with assms(2) show ?thesis unfolding line_complete_def by simp
qed

lemma line_complete_new:
  assumes "line_complete (bd(i := p)) (l0, l1, l2)"
  shows "line_complete bd (l0, l1, l2) \<or> (bd(i := p)) l0 = p"
proof (cases "i = l0 \<or> i = l1 \<or> i = l2")
  case True
  with assms show ?thesis unfolding line_complete_def by (auto split: if_splits)
next
  case False
  with assms show ?thesis unfolding line_complete_def by simp
qed

lemma CheckWinnerRaw_lines_place:
  assumes "bd i = 0"
  shows "CheckWinnerRaw_lines ls (bd(i := p)) = CheckWinnerRaw_lines ls bd \<or>
         CheckWinnerRaw_lines ls (bd(i := p)) = p"
proof (induction ls)
  case Nil
  show ?case by simp
next
  case (Cons l ls)
  obtain l0 l1 l2 where l: "l = (l0, l1, l2)" by (cases l)
  show ?case
  proof (cases "line_complete bd (l0, l1, l2)")
    case True
    from line_complete_kept[OF assms True, of p] True show ?thesis
      unfolding l CheckWinnerRaw_lines_Cons by simp
  next
    case False
    show ?thesis
    proof (cases "line_complete (bd(i := p)) (l0, l1, l2)")
      case True
      from line_complete_new[OF True] False True show ?thesis
        unfolding l CheckWinnerRaw_lines_Cons by simp
    next
      case no: False
      have "CheckWinnerRaw_lines (l # ls) (bd(i := p)) = CheckWinnerRaw_lines ls (bd(i := p))"
        unfolding l CheckWinnerRaw_lines_Cons using no by (simp only: if_False)
      moreover have "CheckWinnerRaw_lines (l # ls) bd = CheckWinnerRaw_lines ls bd"
        unfolding l CheckWinnerRaw_lines_Cons using False by (simp only: if_False)
      ultimately show ?thesis using Cons.IH by (simp only:)
    qed
  qed
qed

lemma CheckWinnerRaw_place:
  assumes "bd i = 0"
  shows "CheckWinnerRaw (bd(i := p)) = CheckWinnerRaw bd \<or> CheckWinnerRaw (bd(i := p)) = p"
  unfolding CheckWinnerRaw_def using assms by (rule CheckWinnerRaw_lines_place)

lemma Negamax_exhaustive_terminal:
  assumes "valid_cells bd"
  shows "CheckWinnerRaw bd = 1 \<Longrightarrow> Negamax_exhaustive 1 bd = 1 \<and> Negamax_exhaustive (- 1) bd = - 1"
    and "CheckWinnerRaw bd = 2 \<Longrightarrow> Negamax_exhaustive 1 bd = - 1 \<and> Negamax_exhaustive (- 1) bd = 1"
    and "CheckWinnerRaw bd = 0 \<Longrightarrow> BoardFull bd \<Longrightarrow>
           Negamax_exhaustive 1 bd = 0 \<and> Negamax_exhaustive (- 1) bd = 0"
  by (simp_all add: Negamax_exhaustive_unfold CheckWinnerSigned_cases[OF assms])

lemma Negamax_exhaustive_moves:
  assumes "valid_cells bd" and "CheckWinnerRaw bd = 0" and "\<not> BoardFull bd"
  shows "\<forall>i<9. bd i = 0 \<longrightarrow> child_value side bd i \<le> Negamax_exhaustive side bd"
    and "\<exists>i<9. bd i = 0 \<and> Negamax_exhaustive side bd = child_value side bd i"
proof -
  let ?E = "{i. i < 9 \<and> bd i = 0}"
  let ?F = "child_value side bd ` ?E"
  from assms(3) have ne: "?F \<noteq> {}" by (auto simp: BoardFull_iff)
  have fin: "finite ?F" by simp
  have floor: "\<forall>v\<in>?F. INT_MIN < v"
  proof
    fix v assume "v \<in> ?F"
    then obtain i where "v = child_value side bd i" by auto
    with child_value_range[of side bd i] show "INT_MIN < v" by (auto simp: INT_MIN_def)
  qed
  have "Negamax_exhaustive side bd = Max (insert INT_MIN ?F)"
    using assms by (simp add: Negamax_exhaustive_unfold CheckWinnerSigned_cases)
  also have "\<dots> = Max ?F" by (rule Max_above_floor[OF fin ne floor])
  finally have eq: "Negamax_exhaustive side bd = Max ?F" .
  show "\<forall>i<9. bd i = 0 \<longrightarrow> child_value side bd i \<le> Negamax_exhaustive side bd"
    unfolding eq by (auto intro!: Max_ge)
  from Max_in[OF fin ne] show "\<exists>i<9. bd i = 0 \<and> Negamax_exhaustive side bd = child_value side bd i"
    unfolding eq by auto
qed

lemma moving_first_is_no_worse:
  assumes "valid_cells bd"
  shows "(\<forall>i<9. bd i = 0 \<longrightarrow> Negamax_exhaustive (- 1) (bd(i := 1)) \<le> Negamax_exhaustive (- 1) bd) \<and>
         (\<forall>i<9. bd i = 0 \<longrightarrow> Negamax_exhaustive 1 bd \<le> Negamax_exhaustive 1 (bd(i := 1))) \<and>
         0 \<le> Negamax_exhaustive 1 bd + Negamax_exhaustive (- 1) bd"
  using assms
proof (induction "empties bd" arbitrary: bd rule: less_induct)
  case less
  note v = less.prems
  note tv = Negamax_exhaustive_terminal[OF v]
  have w: "CheckWinnerRaw bd = 0 \<or> CheckWinnerRaw bd = 1 \<or> CheckWinnerRaw bd = 2"
    using CheckWinnerRaw_valid[OF v] by auto
  have rX: "- 1 \<le> Negamax_exhaustive 1 b \<and> Negamax_exhaustive 1 b \<le> 1" for b
    using Negamax_exhaustive_range[of 1 b] by auto
  have rO: "- 1 \<le> Negamax_exhaustive (- 1) b \<and> Negamax_exhaustive (- 1) b \<le> 1" for b
    using Negamax_exhaustive_range[of "- 1" b] by auto
  have sub: "valid_cells (bd(j := p)) \<and> empties (bd(j := p)) < empties bd"
    if "j < 9" "bd j = 0" "p = 1 \<or> p = 2" for j p
    using that v by (auto simp: valid_cells_place empties_place_less)
  have A: "Negamax_exhaustive (- 1) (bd(i := 1)) \<le> Negamax_exhaustive (- 1) bd"
    if i: "i < 9" "bd i = 0" for i
  proof -
    let ?b' = "bd(i := 1)"
    from sub[OF i, of 1] have v': "valid_cells ?b'" by simp
    note tv' = Negamax_exhaustive_terminal[OF v']
    from CheckWinnerRaw_place[of bd i 1] i(2)
    have w': "CheckWinnerRaw ?b' = CheckWinnerRaw bd \<or> CheckWinnerRaw ?b' = 1" by simp
    from w show ?thesis
    proof (elim disjE)
      assume w1: "CheckWinnerRaw bd = 1"
      with w' have "CheckWinnerRaw ?b' = 1" by auto
      with tv'(1) tv(1)[OF w1] show ?thesis by simp
    next
      assume w2: "CheckWinnerRaw bd = 2"
      with tv(2) rO[of ?b'] show ?thesis by simp
    next
      assume w0: "CheckWinnerRaw bd = 0"
      have nf: "\<not> BoardFull bd" using i by (auto simp: BoardFull_iff)
      from w' w0 have "CheckWinnerRaw ?b' = 1 \<or> CheckWinnerRaw ?b' = 0" by auto
      then show ?thesis
      proof
        assume "CheckWinnerRaw ?b' = 1"
        with tv'(1) rO[of bd] show ?thesis by simp
      next
        assume w0': "CheckWinnerRaw ?b' = 0"
        show ?thesis
        proof (cases "BoardFull ?b'")
          case True
          let ?b2 = "bd(i := 2)"
          from sub[OF i, of 2] have v2: "valid_cells ?b2" by simp
          have full2: "BoardFull ?b2" using True by (auto simp: BoardFull_iff split: if_splits)
          from CheckWinnerRaw_place[of bd i 2] i(2) w0
          have "CheckWinnerRaw ?b2 = 0 \<or> CheckWinnerRaw ?b2 = 2" by auto
          then have "Negamax_exhaustive 1 ?b2 \<le> 0"
            using Negamax_exhaustive_terminal(2,3)[OF v2] full2 by auto
          moreover have "child_value (- 1) bd i \<le> Negamax_exhaustive (- 1) bd"
            using Negamax_exhaustive_moves(1)[OF v w0 nf, of "- 1"] i by simp
          ultimately have "0 \<le> Negamax_exhaustive (- 1) bd"
            by (simp add: child_value_O_neg)
          with tv'(3)[OF w0' True] show ?thesis by simp
        next
          case False
          from Negamax_exhaustive_moves(2)[OF v' w0' False, of "- 1"]
          obtain j where j: "j < 9" "?b' j = 0"
            and at: "Negamax_exhaustive (- 1) ?b' = child_value (- 1) ?b' j" by blast
          from j(2) have ji: "j \<noteq> i" and ej: "bd j = 0" by (auto split: if_splits)
          let ?c = "bd(j := 2)"
          from sub[OF j(1) ej, of 2] have c: "valid_cells ?c" "empties ?c < empties bd" by simp_all
          have tw: "?b'(j := 2) = ?c(i := 1)" using ji by (simp add: fun_upd_twist)
          from less.hyps[OF c(2) c(1)] i ji
          have "Negamax_exhaustive 1 ?c \<le> Negamax_exhaustive 1 (?c(i := 1))" by simp
          then have "child_value (- 1) ?b' j \<le> child_value (- 1) bd j"
            unfolding child_value_O_neg tw by simp
          moreover have "child_value (- 1) bd j \<le> Negamax_exhaustive (- 1) bd"
            using Negamax_exhaustive_moves(1)[OF v w0 nf, of "- 1"] j(1) ej by simp
          ultimately show ?thesis unfolding at by simp
        qed
      qed
    qed
  qed
  have B: "Negamax_exhaustive 1 bd \<le> Negamax_exhaustive 1 (bd(i := 1))"
    if i: "i < 9" "bd i = 0" for i
  proof -
    let ?b' = "bd(i := 1)"
    from sub[OF i, of 1] have v': "valid_cells ?b'" and e': "empties ?b' < empties bd" by simp_all
    note tv' = Negamax_exhaustive_terminal[OF v']
    from CheckWinnerRaw_place[of bd i 1] i(2)
    have w': "CheckWinnerRaw ?b' = CheckWinnerRaw bd \<or> CheckWinnerRaw ?b' = 1" by simp
    from w show ?thesis
    proof (elim disjE)
      assume w1: "CheckWinnerRaw bd = 1"
      with w' have "CheckWinnerRaw ?b' = 1" by auto
      with tv'(1) rX[of bd] show ?thesis by simp
    next
      assume w2: "CheckWinnerRaw bd = 2"
      with tv(2) rX[of ?b'] show ?thesis by simp
    next
      assume w0: "CheckWinnerRaw bd = 0"
      have nf: "\<not> BoardFull bd" using i by (auto simp: BoardFull_iff)
      from Negamax_exhaustive_moves(2)[OF v w0 nf, of 1]
      obtain j where j: "j < 9" "bd j = 0"
        and at: "Negamax_exhaustive 1 bd = child_value 1 bd j" by blast
      from w' w0 have "CheckWinnerRaw ?b' = 1 \<or> CheckWinnerRaw ?b' = 0" by auto
      then show ?thesis
      proof
        assume "CheckWinnerRaw ?b' = 1"
        with tv'(1) rX[of bd] show ?thesis by simp
      next
        assume w0': "CheckWinnerRaw ?b' = 0"
        show ?thesis
        proof (cases "j = i")
          case True
          from less.hyps[OF e' v']
          have "0 \<le> Negamax_exhaustive 1 ?b' + Negamax_exhaustive (- 1) ?b'" by simp
          then show ?thesis unfolding at True child_value_X by simp
        next
          case ji: False
          have nf': "\<not> BoardFull ?b'" using j ji by (auto simp: BoardFull_iff)
          let ?c = "bd(j := 1)"
          from sub[OF j, of 1] have c: "valid_cells ?c" "empties ?c < empties bd" by simp_all
          have tw: "?b'(j := 1) = ?c(i := 1)" using ji by (simp add: fun_upd_twist)
          from less.hyps[OF c(2) c(1)] i ji
          have "Negamax_exhaustive (- 1) (?c(i := 1)) \<le> Negamax_exhaustive (- 1) ?c" by simp
          then have "child_value 1 bd j \<le> child_value 1 ?b' j"
            unfolding child_value_X tw by simp
          moreover have "child_value 1 ?b' j \<le> Negamax_exhaustive 1 ?b'"
            using Negamax_exhaustive_moves(1)[OF v' w0' nf', of 1] j ji by simp
          ultimately show ?thesis unfolding at by simp
        qed
      qed
    qed
  qed
  have C: "0 \<le> Negamax_exhaustive 1 bd + Negamax_exhaustive (- 1) bd"
  proof (cases "CheckWinnerRaw bd = 0 \<and> \<not> BoardFull bd")
    case False
    with w tv show ?thesis by auto
  next
    case True
    then obtain i where i: "i < 9" "bd i = 0" by (auto simp: BoardFull_iff)
    have "child_value 1 bd i \<le> Negamax_exhaustive 1 bd"
      using Negamax_exhaustive_moves(1)[OF v, of 1] True i by simp
    with A[OF i] show ?thesis by (simp add: child_value_X)
  qed
  from A B C show ?case by blast
qed

section \<open>The claims\<close>

text \<open>
  Claim C1.  In every reachable state where some empty cell is not a forced loss for O
  (X to move cannot force a win after O takes it), the cell that \<open>AIMove_Negamax\<close>
  fills with O is not a forced loss for O either.
\<close>

theorem AIMove_avoids_forced_loss:
  assumes "reachable s"
    and "\<exists>i<9. board s i = 0 \<and> \<not> X_forces_win True ((board s)(i := 2))"
  shows "\<forall>m<9. board s m = 0 \<and> board (AIMove_Negamax s) m = 2 \<longrightarrow>
           \<not> X_forces_win True ((board s)(m := 2))"
proof (intro allI impI)
  fix m assume "m < 9" and placed: "board s m = 0 \<and> board (AIMove_Negamax s) m = 2"
  from reachable_invariant[OF assms(1)] have v: "valid_cells (board s)"
    by (simp add: game_invariant_def)
  have go: "\<not> gameOver s"
  proof
    assume "gameOver s"
    then have "AIMove_Negamax s = s" by (simp add: AIMove_Negamax_def)
    with placed have "(0::int) = 2" by metis
    then show False by simp
  qed
  from assms(2) obtain i where i: "i < 9" "board s i = 0"
    and ok: "\<not> X_forces_win True ((board s)(i := 2))" by blast
  then have ex: "\<exists>i<9. board s i = 0" by blast
  from AIMove_scan_ORDER[OF ex] obtain bv m' where
    r: "AIMove_scan ORDER INT_MIN (- 1) s = (bv, int m', s)" and m': "m' < 9" "board s m' = 0"
    and bv: "child_value (- 1) (board s) m' = bv"
    and ub: "\<forall>i<9. board s i = 0 \<longrightarrow> child_value (- 1) (board s) i \<le> bv"
    by blast
  have b: "board (AIMove_Negamax s) = (board s)(m' := 2)"
    by (rule AIMove_Negamax_board[OF go r])
  with placed have same: "m = m'" by (auto split: if_splits)
  have link: "Negamax_exhaustive 1 ((board s)(j := 2)) = 1 \<longleftrightarrow> X_forces_win True ((board s)(j := 2))"
    for j using Negamax_exhaustive_forced[of "(board s)(j := 2)"] v
    by (simp add: valid_cells_place)
  from ok link[of i] have "Negamax_exhaustive 1 ((board s)(i := 2)) \<noteq> 1" by simp
  then have "0 \<le> child_value (- 1) (board s) i"
    using Negamax_exhaustive_range[of 1 "(board s)(i := 2)"] by (auto simp: child_value_O_neg)
  with ub i have "0 \<le> bv" by fastforce
  then have "Negamax_exhaustive 1 ((board s)(m' := 2)) \<noteq> 1"
    using bv by (auto simp: child_value_O_neg)
  with link[of m'] show "\<not> X_forces_win True ((board s)(m := 2))" unfolding same by simp
qed

theorem AIMove_avoids_forced_loss_witness:
  "reachable \<lparr>board = (\<lambda>_. 0)(0 := 1, 4 := 2, 1 := 1, 2 := 2, 6 := 1, 3 := 2, 5 := 1),
              currentPlayer = 2, gameOver = False, winner = 0, aiEnabled = False\<rparr>
   \<and> ((\<lambda>_. 0)(0 := 1, 4 := 2, 1 := 1, 2 := 2, 6 := 1, 3 := 2, 5 := 1) :: cells) 7 = 0
   \<and> \<not> X_forces_win True ((\<lambda>_. 0)(0 := 1, 4 := 2, 1 := 1, 2 := 2, 6 := 1, 3 := 2, 5 := 1, 7 := 2))
   \<and> ((\<lambda>_. 0)(0 := 1, 4 := 2, 1 := 1, 2 := 2, 6 := 1, 3 := 2, 5 := 1) :: cells) 8 = 0
   \<and> board (AIMove_Negamax
        \<lparr>board = (\<lambda>_. 0)(0 := 1, 4 := 2, 1 := 1, 2 := 2, 6 := 1, 3 := 2, 5 := 1),
         currentPlayer = 2, gameOver = False, winner = 0, aiEnabled = False\<rparr>) 8 = 2
   \<and> \<not> X_forces_win True ((\<lambda>_. 0)(0 := 1, 4 := 2, 1 := 1, 2 := 2, 6 := 1, 3 := 2, 5 := 1, 8 := 2))"
proof -
  let ?s = "\<lparr>board = (\<lambda>_. 0)(0 := 1, 4 := 2, 1 := 1, 2 := 2, 6 := 1, 3 := 2, 5 := 1),
         currentPlayer = 2, gameOver = False, winner = 0, aiEnabled = False\<rparr>"
  have e7: "board ?s 7 = 0" by simp
  have ok7: "\<not> X_forces_win True ((board ?s)(7 := 2))" by code_simp
  have e8: "board ?s 8 = 0" by simp
  have p8: "board (AIMove_Negamax ?s) 8 = 2" by code_simp
  have ex: "\<exists>i<9. board ?s i = 0 \<and> \<not> X_forces_win True ((board ?s)(i := 2))"
    using e7 ok7 by (intro exI[of _ 7]) simp
  from AIMove_avoids_forced_loss[OF reachable_two_player_seven ex, rule_format, of 8] e8 p8
  have "\<not> X_forces_win True ((board ?s)(8 := 2))" by simp
  with reachable_two_player_seven e7 ok7 e8 p8 show ?thesis by simp
qed

text \<open>
  Claim C2, as stated: \<open>Negamax(+1)\<close> is the negation of \<open>Negamax(-1)\<close> on every
  board.  It fails where the side to move wins whoever it is.  On the board
  \<open>[1,1,0,2,2,0,1,2,1]\<close> X to move completes the top row and O to move completes the
  middle row, so both calls return \<open>+1\<close>.
\<close>

theorem Negamax_antisymmetry_counterexample:
  "fst (Negamax 1 \<lparr>board = board_of [1, 1, 0, 2, 2, 0, 1, 2, 1], currentPlayer = 2,
                   gameOver = False, winner = 0, aiEnabled = True\<rparr>)
   \<noteq> - fst (Negamax (- 1) \<lparr>board = board_of [1, 1, 0, 2, 2, 0, 1, 2, 1], currentPlayer = 2,
                   gameOver = False, winner = 0, aiEnabled = True\<rparr>)"
  by code_simp

text \<open>
  Claim C2, amended.  On every board of cells 0, 1, 2, \<open>Negamax(+1)\<close> is at least
  the negation of \<open>Negamax(-1)\<close>: moving first is never worse than moving second.
  The two are equal exactly when one of them is \<open>-1\<close> (that side loses even when
  it moves first, so the other side wins even moving second) or both are 0; they differ
  exactly when a side wins by moving first and does not when moving second.  In
  particular they are equal on every board where the search stops at once, because
  the signed winner is not zero or no cell is empty.
\<close>

theorem Negamax_first_mover:
  "valid_cells (board s) \<Longrightarrow>
     - fst (Negamax (- 1) s) \<le> fst (Negamax 1 s) \<and>
     (fst (Negamax 1 s) = - fst (Negamax (- 1) s) \<longleftrightarrow>
        fst (Negamax 1 s) = - 1 \<or> fst (Negamax (- 1) s) = - 1 \<or>
        (fst (Negamax 1 s) = 0 \<and> fst (Negamax (- 1) s) = 0)) \<and>
     (CheckWinnerSigned (board s) \<noteq> 0 \<or> BoardFull (board s) \<longrightarrow>
        fst (Negamax 1 s) = - fst (Negamax (- 1) s))"
proof -
  assume v: "valid_cells (board s)"
  have x: "fst (Negamax 1 s) = Negamax_exhaustive 1 (board s)"
    and o: "fst (Negamax (- 1) s) = Negamax_exhaustive (- 1) (board s)"
    by (simp_all add: Negamax_is_exhaustive)
  from moving_first_is_no_worse[OF v]
  have le: "0 \<le> Negamax_exhaustive 1 (board s) + Negamax_exhaustive (- 1) (board s)" by simp
  have rx: "Negamax_exhaustive 1 (board s) \<in> {- 1, 0, 1}"
    and ro: "Negamax_exhaustive (- 1) (board s) \<in> {- 1, 0, 1}"
    by (rule Negamax_exhaustive_range)+
  have stop: "fst (Negamax 1 s) = - fst (Negamax (- 1) s)"
    if "CheckWinnerSigned (board s) \<noteq> 0 \<or> BoardFull (board s)"
    using that by (auto simp: Negamax.simps Let_def CheckWinnerSigned_def)
  from le rx ro stop show ?thesis unfolding x o by auto
qed

theorem Negamax_first_mover_witness:
  "valid_cells (board_of [1, 1, 0, 2, 2, 0, 1, 2, 1])
   \<and> fst (Negamax 1 \<lparr>board = board_of [1, 1, 0, 2, 2, 0, 1, 2, 1], currentPlayer = 2,
                      gameOver = False, winner = 0, aiEnabled = True\<rparr>) = 1
   \<and> fst (Negamax (- 1) \<lparr>board = board_of [1, 1, 0, 2, 2, 0, 1, 2, 1], currentPlayer = 2,
                      gameOver = False, winner = 0, aiEnabled = True\<rparr>) = 1
   \<and> - fst (Negamax (- 1) \<lparr>board = board_of [1, 1, 0, 2, 2, 0, 1, 2, 1], currentPlayer = 2,
                      gameOver = False, winner = 0, aiEnabled = True\<rparr>)
       \<le> fst (Negamax 1 \<lparr>board = board_of [1, 1, 0, 2, 2, 0, 1, 2, 1], currentPlayer = 2,
                      gameOver = False, winner = 0, aiEnabled = True\<rparr>)
   \<and> valid_cells (board_of [1, 2, 1, 1, 2, 2, 2, 1, 0])
   \<and> CheckWinnerSigned (board_of [1, 2, 1, 1, 2, 2, 2, 1, 0]) = 0
   \<and> board_of [1, 2, 1, 1, 2, 2, 2, 1, 0] 8 = 0
   \<and> fst (Negamax 1 \<lparr>board = board_of [1, 2, 1, 1, 2, 2, 2, 1, 0], currentPlayer = 1,
                      gameOver = False, winner = 0, aiEnabled = True\<rparr>) = 0
   \<and> fst (Negamax 1 \<lparr>board = board_of [1, 2, 1, 1, 2, 2, 2, 1, 0], currentPlayer = 1,
                      gameOver = False, winner = 0, aiEnabled = True\<rparr>)
       = - fst (Negamax (- 1) \<lparr>board = board_of [1, 2, 1, 1, 2, 2, 2, 1, 0], currentPlayer = 1,
                      gameOver = False, winner = 0, aiEnabled = True\<rparr>)
   \<and> valid_cells (board_of [1, 1, 1, 2, 2, 0, 0, 0, 0])
   \<and> CheckWinnerSigned (board_of [1, 1, 1, 2, 2, 0, 0, 0, 0]) = 1
   \<and> fst (Negamax 1 \<lparr>board = board_of [1, 1, 1, 2, 2, 0, 0, 0, 0], currentPlayer = 2,
                      gameOver = True, winner = 1, aiEnabled = True\<rparr>)
       = - fst (Negamax (- 1) \<lparr>board = board_of [1, 1, 1, 2, 2, 0, 0, 0, 0], currentPlayer = 2,
                      gameOver = True, winner = 1, aiEnabled = True\<rparr>)"
proof -
  let ?c = "\<lparr>board = board_of [1, 1, 0, 2, 2, 0, 1, 2, 1], currentPlayer = 2,
                      gameOver = False, winner = 0, aiEnabled = True\<rparr>"
  let ?d = "\<lparr>board = board_of [1, 2, 1, 1, 2, 2, 2, 1, 0], currentPlayer = 1,
                      gameOver = False, winner = 0, aiEnabled = True\<rparr>"
  let ?t = "\<lparr>board = board_of [1, 1, 1, 2, 2, 0, 0, 0, 0], currentPlayer = 2,
                      gameOver = True, winner = 1, aiEnabled = True\<rparr>"
  have vc: "valid_cells (board ?c)" by code_simp
  have c1: "fst (Negamax 1 ?c) = 1" by code_simp
  have c2: "fst (Negamax (- 1) ?c) = 1" by code_simp
  from Negamax_first_mover[OF vc]
  have 1: "- fst (Negamax (- 1) ?c) \<le> fst (Negamax 1 ?c)" by blast
  have vd: "valid_cells (board ?d)" by code_simp
  have wd: "CheckWinnerSigned (board ?d) = 0" by code_simp
  have ed: "board ?d 8 = 0" by code_simp
  have d1: "fst (Negamax 1 ?d) = 0" by code_simp
  have d2: "fst (Negamax (- 1) ?d) = 0" by code_simp
  from Negamax_first_mover[OF vd] d1 d2
  have 2: "fst (Negamax 1 ?d) = - fst (Negamax (- 1) ?d)" by blast
  have vt: "valid_cells (board ?t)" by code_simp
  have wt: "CheckWinnerSigned (board ?t) = 1" by code_simp
  from Negamax_first_mover[OF vt] wt
  have 3: "fst (Negamax 1 ?t) = - fst (Negamax (- 1) ?t)" by simp
  from vc c1 c2 1 vd wd ed d1 2 vt wt 3 show ?thesis by simp
qed

text \<open>
  Claim C3.  On a board of cells 0, 1, 2 with a complete winning triplet the signed
  winner is \<open>+1\<close> or \<open>-1\<close> (\<open>+1\<close> when the first complete triplet is X's), and
  \<open>Negamax\<close> returns \<open>+1\<close> when the signed winner equals the side and \<open>-1\<close>
  otherwise; on a board with no empty cell and no complete triplet it returns 0.  In
  both cases the result is given by the first two branches of the function, before the
  loop over the moves, and the state comes back as it was.
\<close>

theorem Negamax_terminal:
  "(valid_cells (board s) \<and> list_ex (line_complete (board s)) WINS \<longrightarrow>
      CheckWinnerSigned (board s) = (if CheckWinnerRaw (board s) = 1 then 1 else - 1) \<and>
      Negamax side s = ((if CheckWinnerSigned (board s) = side then 1 else - 1), s))
   \<and> ((\<forall>i<9. board s i \<noteq> 0) \<and> \<not> list_ex (line_complete (board s)) WINS \<longrightarrow>
      Negamax side s = (0, s))"
proof (intro conjI impI)
  assume a: "valid_cells (board s) \<and> list_ex (line_complete (board s)) WINS"
  then have w: "CheckWinnerSigned (board s) \<noteq> 0" by (simp add: CheckWinnerSigned_valid)
  from a have "CheckWinnerRaw (board s) \<noteq> 0" by (simp add: CheckWinnerRaw_nonzero_iff)
  with a show "CheckWinnerSigned (board s) = (if CheckWinnerRaw (board s) = 1 then 1 else - 1)"
    by (simp add: CheckWinnerSigned_cases)
  from w show "Negamax side s = ((if CheckWinnerSigned (board s) = side then 1 else - 1), s)"
    by (simp add: Negamax.simps Let_def)
next
  assume a: "(\<forall>i<9. board s i \<noteq> 0) \<and> \<not> list_ex (line_complete (board s)) WINS"
  then have "CheckWinnerRaw (board s) = 0" using CheckWinnerRaw_nonzero_iff[of "board s"] by simp
  then have "CheckWinnerSigned (board s) = 0" by (simp add: CheckWinnerSigned_def)
  moreover have "BoardFull (board s)" using a by (simp add: BoardFull_iff)
  ultimately show "Negamax side s = (0, s)" by (simp add: Negamax.simps Let_def)
qed

theorem Negamax_terminal_witness:
  "valid_cells (board_of [1, 1, 1, 2, 2, 0, 0, 0, 0])
   \<and> list_ex (line_complete (board_of [1, 1, 1, 2, 2, 0, 0, 0, 0])) WINS
   \<and> CheckWinnerSigned (board_of [1, 1, 1, 2, 2, 0, 0, 0, 0]) = 1
   \<and> fst (Negamax 1 \<lparr>board = board_of [1, 1, 1, 2, 2, 0, 0, 0, 0], currentPlayer = 2,
                      gameOver = True, winner = 1, aiEnabled = True\<rparr>) = 1
   \<and> fst (Negamax (- 1) \<lparr>board = board_of [1, 1, 1, 2, 2, 0, 0, 0, 0], currentPlayer = 2,
                      gameOver = True, winner = 1, aiEnabled = True\<rparr>) = - 1
   \<and> list_all (\<lambda>i. board_of [1, 2, 1, 1, 2, 2, 2, 1, 1] i \<noteq> 0) [0..<9]
   \<and> \<not> list_ex (line_complete (board_of [1, 2, 1, 1, 2, 2, 2, 1, 1])) WINS
   \<and> fst (Negamax 1 \<lparr>board = board_of [1, 2, 1, 1, 2, 2, 2, 1, 1], currentPlayer = 2,
                      gameOver = True, winner = 0, aiEnabled = True\<rparr>) = 0"
proof -
  let ?w = "\<lparr>board = board_of [1, 1, 1, 2, 2, 0, 0, 0, 0], currentPlayer = 2,
                      gameOver = True, winner = 1, aiEnabled = True\<rparr>"
  let ?d = "\<lparr>board = board_of [1, 2, 1, 1, 2, 2, 2, 1, 1], currentPlayer = 2,
                      gameOver = True, winner = 0, aiEnabled = True\<rparr>"
  have v: "valid_cells (board ?w)" by code_simp
  have l: "list_ex (line_complete (board ?w)) WINS" by code_simp
  have sw: "CheckWinnerSigned (board ?w) = 1" by code_simp
  have cells: "list_all (\<lambda>i. board_of [1, 2, 1, 1, 2, 2, 2, 1, 1] i \<noteq> 0) [0..<9]" by code_simp
  then have full: "\<forall>i<9. board ?d i \<noteq> 0" by (simp add: all_cells_iff)
  have none: "\<not> list_ex (line_complete (board ?d)) WINS" by code_simp
  from Negamax_terminal[of ?w 1] v l sw have 1: "fst (Negamax 1 ?w) = 1" by simp
  from Negamax_terminal[of ?w "- 1"] v l sw have 2: "fst (Negamax (- 1) ?w) = - 1" by simp
  from Negamax_terminal[of ?d 1] full none have 3: "fst (Negamax 1 ?d) = 0" by simp
  from v l sw 1 2 cells none 3 show ?thesis by simp
qed

text \<open>
  Claim C4.  For every state and side, the search in the order centre, corners, edges
  with its early exit at \<open>+1\<close> returns the value of the exhaustive negamax that tries
  the empty cells in index order and never exits early.
\<close>

theorem Negamax_refines_exhaustive:
  "fst (Negamax side s) = Negamax_exhaustive side (board s)"
  by (simp add: Negamax_is_exhaustive)

theorem Negamax_refines_exhaustive_witness:
  "fst (Negamax 1 initial_state) = Negamax_exhaustive 1 (board initial_state)"
  by (rule Negamax_refines_exhaustive)

text \<open>
  Claim C5.  On the board \<open>[1,1,0,0,2,0,0,0,2]\<close> the computer's move for O is cell 2:
  the scoring loop ends with \<open>bestMove = 2\<close> (and \<open>bestVal = 1\<close>), and the board
  after the move is the board before it with O in cell 2.  This holds whatever the
  other globals are, as long as the game is not over.
\<close>

theorem AIMove_takes_cell_2:
  "AIMove_scan ORDER INT_MIN (- 1)
     \<lparr>board = board_of [1, 1, 0, 0, 2, 0, 0, 0, 2], currentPlayer = cp, gameOver = False,
      winner = w, aiEnabled = ai\<rparr>
   = (1, 2, \<lparr>board = board_of [1, 1, 0, 0, 2, 0, 0, 0, 2], currentPlayer = cp, gameOver = False,
      winner = w, aiEnabled = ai\<rparr>)
   \<and> board (AIMove_Negamax
        \<lparr>board = board_of [1, 1, 0, 0, 2, 0, 0, 0, 2], currentPlayer = cp, gameOver = False,
         winner = w, aiEnabled = ai\<rparr>)
     = (board_of [1, 1, 0, 0, 2, 0, 0, 0, 2])(2 := 2)"
proof -
  let ?s = "\<lparr>board = board_of [1, 1, 0, 0, 2, 0, 0, 0, 2], currentPlayer = cp, gameOver = False,
      winner = w, aiEnabled = ai\<rparr>"
  have v: "fst (AIMove_scan ORDER INT_MIN (- 1) ?s) = 1" by code_simp
  have m: "fst (snd (AIMove_scan ORDER INT_MIN (- 1) ?s)) = 2" by code_simp
  have scan: "AIMove_scan ORDER INT_MIN (- 1) ?s = (1, 2, ?s)"
    using v m AIMove_scan_restores[of ORDER INT_MIN "- 1" ?s] by (simp add: prod_eq_iff)
  show ?thesis
    unfolding AIMove_Negamax_def scan
    by (simp add: Let_def board_record_outcome place_def)
qed

theorem AIMove_takes_cell_2_witness:
  "AIMove_scan ORDER INT_MIN (- 1)
     \<lparr>board = board_of [1, 1, 0, 0, 2, 0, 0, 0, 2], currentPlayer = 2, gameOver = False,
      winner = 0, aiEnabled = True\<rparr>
   = (1, 2, \<lparr>board = board_of [1, 1, 0, 0, 2, 0, 0, 0, 2], currentPlayer = 2, gameOver = False,
      winner = 0, aiEnabled = True\<rparr>)
   \<and> board (AIMove_Negamax
        \<lparr>board = board_of [1, 1, 0, 0, 2, 0, 0, 0, 2], currentPlayer = 2, gameOver = False,
         winner = 0, aiEnabled = True\<rparr>)
     = (board_of [1, 1, 0, 0, 2, 0, 0, 0, 2])(2 := 2)"
  by (rule AIMove_takes_cell_2)

text \<open>
  Claim C6.  In every reachable state at most one of X and O has three in a row, and
  the win check reports the player who has it.
\<close>

theorem at_most_one_winner:
  assumes "reachable s"
  shows "\<not> (has_triplet (board s) 1 \<and> has_triplet (board s) 2)
         \<and> (has_triplet (board s) 1 \<longrightarrow> CheckWinnerRaw (board s) = 1)
         \<and> (has_triplet (board s) 2 \<longrightarrow> CheckWinnerRaw (board s) = 2)"
proof -
  from reachable_invariant[OF assms] have v: "valid_cells (board s)"
    and one: "\<not> (has_triplet (board s) 1 \<and> has_triplet (board s) 2)"
    by (simp_all add: game_invariant_def)
  have rep: "CheckWinnerRaw (board s) = p" if "has_triplet (board s) p" "p = 1 \<or> p = 2" for p
  proof -
    from that have "CheckWinnerRaw (board s) \<noteq> 0"
      using no_winner_no_triplet[of "board s" p] by auto
    with CheckWinnerRaw_owner[of "board s"] CheckWinnerRaw_valid[OF v] one that
    show ?thesis by auto
  qed
  from one rep[of 1] rep[of 2] show ?thesis by simp
qed

theorem at_most_one_winner_witness:
  "reachable \<lparr>board = (\<lambda>_. 0)(0 := 1, 3 := 2, 1 := 1, 4 := 2, 2 := 1), currentPlayer = 1,
              gameOver = True, winner = 1, aiEnabled = False\<rparr>
   \<and> has_triplet ((\<lambda>_. 0)(0 := 1, 3 := 2, 1 := 1, 4 := 2, 2 := 1)) 1
   \<and> \<not> has_triplet ((\<lambda>_. 0)(0 := 1, 3 := 2, 1 := 1, 4 := 2, 2 := 1)) 2
   \<and> CheckWinnerRaw ((\<lambda>_. 0)(0 := 1, 3 := 2, 1 := 1, 4 := 2, 2 := 1)) = 1"
proof -
  have t: "has_triplet ((\<lambda>_. 0)(0 := 1, 3 := 2, 1 := 1, 4 := 2, 2 := 1)) 1" by code_simp
  from at_most_one_winner[OF reachable_two_player_win] t reachable_two_player_win
  show ?thesis by simp
qed

text \<open>
  Claim C7.  \<open>CheckWinnerRaw\<close> returns the cell value of the first of the 8 triplets,
  in the order of \<open>WINS\<close>, whose cells are equal and not empty, and 0 when there is
  none.  The outcome recorded after a move is then a win for that value; with no
  complete triplet it is a draw when no cell is empty and the game goes on otherwise.
  In particular a full board with no three in a row is a draw.
\<close>

theorem outcome_of_board:
  "CheckWinnerRaw (board s) =
     (case find (line_complete (board s)) WINS of
        None \<Rightarrow> 0 | Some (l0, l1, l2) \<Rightarrow> board s l0)
   \<and> shown_outcome (record_outcome s) =
     (case find (line_complete (board s)) WINS of
        Some (l0, l1, l2) \<Rightarrow> Win (board s l0)
      | None \<Rightarrow> if (\<forall>i<9. board s i \<noteq> 0) then Draw else InProgress)
   \<and> ((\<forall>i<9. board s i \<noteq> 0) \<and> \<not> list_ex (line_complete (board s)) WINS \<longrightarrow>
        shown_outcome (record_outcome s) = Draw)"
proof -
  have "shown_outcome (record_outcome s) = Draw"
    if "\<forall>i<9. board s i \<noteq> 0" "\<not> list_ex (line_complete (board s)) WINS"
  proof -
    from that(2) have "find (line_complete (board s)) WINS = None"
      by (simp add: find_None_iff list_ex_iff)
    with that(1) show ?thesis by (simp add: shown_outcome_record)
  qed
  then show ?thesis by (simp add: CheckWinnerRaw_find shown_outcome_record)
qed

theorem outcome_of_board_witness:
  "shown_outcome (record_outcome
      \<lparr>board = board_of [2, 2, 0, 1, 1, 1, 0, 0, 0], currentPlayer = 1, gameOver = False,
       winner = 0, aiEnabled = False\<rparr>) = Win 1
   \<and> list_all (\<lambda>i. board_of [1, 2, 1, 1, 2, 2, 2, 1, 1] i \<noteq> 0) [0..<9]
   \<and> \<not> list_ex (line_complete (board_of [1, 2, 1, 1, 2, 2, 2, 1, 1])) WINS
   \<and> shown_outcome (record_outcome
      \<lparr>board = board_of [1, 2, 1, 1, 2, 2, 2, 1, 1], currentPlayer = 2, gameOver = False,
       winner = 0, aiEnabled = False\<rparr>) = Draw
   \<and> shown_outcome (record_outcome initial_state) = InProgress"
proof -
  let ?w = "\<lparr>board = board_of [2, 2, 0, 1, 1, 1, 0, 0, 0], currentPlayer = 1, gameOver = False,
       winner = 0, aiEnabled = False\<rparr>"
  let ?d = "\<lparr>board = board_of [1, 2, 1, 1, 2, 2, 2, 1, 1], currentPlayer = 2, gameOver = False,
       winner = 0, aiEnabled = False\<rparr>"
  have w: "find (line_complete (board ?w)) WINS = Some (3, 4, 5)" by code_simp
  have cells: "list_all (\<lambda>i. board_of [1, 2, 1, 1, 2, 2, 2, 1, 1] i \<noteq> 0) [0..<9]" by code_simp
  then have full: "\<forall>i<9. board ?d i \<noteq> 0" by (simp add: all_cells_iff)
  have none: "\<not> list_ex (line_complete (board ?d)) WINS" by code_simp
  have i: "find (line_complete (board initial_state)) WINS = None" by code_simp
  have "\<not> list_all (\<lambda>i. board initial_state i \<noteq> 0) [0..<9]" by code_simp
  then have e: "\<not> (\<forall>i<9. board initial_state i \<noteq> 0)" by (simp add: all_cells_iff)
  have c: "board ?w 3 = 1" by code_simp
  from outcome_of_board[of ?w] w c
  have 1: "shown_outcome (record_outcome ?w) = Win 1" by simp
  from outcome_of_board[of ?d] full none
  have 2: "shown_outcome (record_outcome ?d) = Draw" by blast
  from outcome_of_board[of initial_state] i e
  have 3: "shown_outcome (record_outcome initial_state) = InProgress" by simp
  from 1 2 3 cells none show ?thesis by simp
qed

text \<open>
  Claim C8.  \<open>Negamax\<close> is a total function: its termination proof rests on the
  number of empty cells, which every move tried by the loop decreases.  When the game
  is not over and some cell is empty, the scoring loop of \<open>AIMove_Negamax\<close> ends
  with \<open>bestMove\<close> the index of an empty cell, never \<open>-1\<close>, so the fallback loop is
  not entered, and O is placed on that cell.
\<close>

theorem AIMove_finds_a_move:
  assumes "\<not> gameOver s" and "\<exists>i<9. board s i = 0"
  shows "(\<forall>side::int. \<forall>idx\<in>set ORDER. board s idx = 0 \<longrightarrow>
            empties (board (place idx (if side = 1 then 1 else 2) s)) < empties (board s))
         \<and> (\<exists>m<9. board s m = 0 \<and>
               fst (snd (AIMove_scan ORDER INT_MIN (- 1) s)) = int m \<and>
               fst (snd (AIMove_scan ORDER INT_MIN (- 1) s)) \<noteq> - 1 \<and>
               board (AIMove_Negamax s) = (board s)(m := 2))"
proof
  show "\<forall>side::int. \<forall>idx\<in>set ORDER. board s idx = 0 \<longrightarrow>
            empties (board (place idx (if side = 1 then 1 else 2) s)) < empties (board s)"
    by (auto simp: set_ORDER place_def empties_place_less)
next
  from AIMove_scan_ORDER[OF assms(2)] obtain bv m where
    r: "AIMove_scan ORDER INT_MIN (- 1) s = (bv, int m, s)" and m: "m < 9" "board s m = 0"
    by blast
  from AIMove_Negamax_board[OF assms(1) r] r m
  show "\<exists>m<9. board s m = 0 \<and>
               fst (snd (AIMove_scan ORDER INT_MIN (- 1) s)) = int m \<and>
               fst (snd (AIMove_scan ORDER INT_MIN (- 1) s)) \<noteq> - 1 \<and>
               board (AIMove_Negamax s) = (board s)(m := 2)"
    by auto
qed

theorem AIMove_finds_a_move_witness:
  "\<not> gameOver \<lparr>board = board_of [1, 1, 0, 0, 2, 0, 0, 0, 2], currentPlayer = 2, gameOver = False,
      winner = 0, aiEnabled = True\<rparr>
   \<and> board \<lparr>board = board_of [1, 1, 0, 0, 2, 0, 0, 0, 2], currentPlayer = 2, gameOver = False,
      winner = 0, aiEnabled = True\<rparr> 2 = 0
   \<and> empties (board (place 2 2 \<lparr>board = board_of [1, 1, 0, 0, 2, 0, 0, 0, 2], currentPlayer = 2,
      gameOver = False, winner = 0, aiEnabled = True\<rparr>))
     < empties (board \<lparr>board = board_of [1, 1, 0, 0, 2, 0, 0, 0, 2], currentPlayer = 2,
      gameOver = False, winner = 0, aiEnabled = True\<rparr>)
   \<and> (\<exists>m<9. board \<lparr>board = board_of [1, 1, 0, 0, 2, 0, 0, 0, 2], currentPlayer = 2,
          gameOver = False, winner = 0, aiEnabled = True\<rparr> m = 0 \<and>
        fst (snd (AIMove_scan ORDER INT_MIN (- 1) \<lparr>board = board_of [1, 1, 0, 0, 2, 0, 0, 0, 2],
          currentPlayer = 2, gameOver = False, winner = 0, aiEnabled = True\<rparr>)) = int m \<and>
        fst (snd (AIMove_scan ORDER INT_MIN (- 1) \<lparr>board = board_of [1, 1, 0, 0, 2, 0, 0, 0, 2],
          currentPlayer = 2, gameOver = False, winner = 0, aiEnabled = True\<rparr>)) \<noteq> - 1 \<and>
        board (AIMove_Negamax \<lparr>board = board_of [1, 1, 0, 0, 2, 0, 0, 0, 2], currentPlayer = 2,
          gameOver = False, winner = 0, aiEnabled = True\<rparr>)
        = (board \<lparr>board = board_of [1, 1, 0, 0, 2, 0, 0, 0, 2], currentPlayer = 2,
          gameOver = False, winner = 0, aiEnabled = True\<rparr>)(m := 2))"
proof -
  let ?s = "\<lparr>board = board_of [1, 1, 0, 0, 2, 0, 0, 0, 2], currentPlayer = 2, gameOver = False,
      winner = 0, aiEnabled = True\<rparr>"
  have g: "\<not> gameOver ?s" by simp
  have e: "board ?s 2 = 0" by code_simp
  then have ex: "\<exists>i<9. board ?s i = 0" by (intro exI[of _ 2]) simp
  have o: "2 \<in> set ORDER" by (simp add: ORDER_def)
  from AIMove_finds_a_move[OF g ex]
  have dec: "\<forall>side::int. \<forall>idx\<in>set ORDER. board ?s idx = 0 \<longrightarrow>
            empties (board (place idx (if side = 1 then 1 else 2) ?s)) < empties (board ?s)"
    and mv: "\<exists>m<9. board ?s m = 0 \<and> fst (snd (AIMove_scan ORDER INT_MIN (- 1) ?s)) = int m \<and>
               fst (snd (AIMove_scan ORDER INT_MIN (- 1) ?s)) \<noteq> - 1 \<and>
               board (AIMove_Negamax ?s) = (board ?s)(m := 2)"
    by blast+
  from dec[rule_format, of 2 "- 1", OF o e]
  have "empties (board (place 2 2 ?s)) < empties (board ?s)" by simp
  with g e mv show ?thesis by blast
qed

text \<open>
  Claim C9.  After \<open>Negamax\<close> returns, for every state and side, the board is the
  board before the call: every cell filled during the search has been cleared again.
  The turn indicator, the game-over flag and the winner are unchanged too, so the
  state as a whole is the one the search started from.
\<close>

theorem Negamax_commits_nothing:
  "board (snd (Negamax side s)) = board s \<and>
   currentPlayer (snd (Negamax side s)) = currentPlayer s \<and>
   gameOver (snd (Negamax side s)) = gameOver s \<and>
   winner (snd (Negamax side s)) = winner s \<and>
   snd (Negamax side s) = s"
  by (simp add: Negamax_restores(1))

theorem Negamax_commits_nothing_witness:
  "board (snd (Negamax (- 1) initial_state)) = board initial_state \<and>
   currentPlayer (snd (Negamax (- 1) initial_state)) = currentPlayer initial_state \<and>
   gameOver (snd (Negamax (- 1) initial_state)) = gameOver initial_state \<and>
   winner (snd (Negamax (- 1) initial_state)) = winner initial_state \<and>
   snd (Negamax (- 1) initial_state) = initial_state"
  by (rule Negamax_commits_nothing)

text \<open>
  Claim C10.  When the game-over flag is set, \<open>AIMove_Negamax\<close> returns at once and
  leaves the whole state as it was.
\<close>

theorem AIMove_when_game_over: "gameOver s \<Longrightarrow> AIMove_Negamax s = s"
  by (simp add: AIMove_Negamax_def)

theorem AIMove_when_game_over_witness:
  "gameOver (initial_state\<lparr>gameOver := True\<rparr>) \<and>
   AIMove_Negamax (initial_state\<lparr>gameOver := True\<rparr>) = initial_state\<lparr>gameOver := True\<rparr>"
proof -
  have h: "gameOver (initial_state\<lparr>gameOver := True\<rparr>)" by simp
  from h AIMove_when_game_over[OF h] show ?thesis by simp
qed

end
